theory Spec2Isabelle
  imports Main "HOL-Library.Stream" "HOL-Library.Word"
begin

unbundle bit_operations_syntax

section \<open>The confirm module of authboss (confirm/confirm.go)\<close>

text \<open>
  The module confirms a registration by e-mail: a hook run after registration mints a
  token, stores its upper-cased form in the account and mails the token; a gate interrupts
  the authentication of accounts that are not confirmed; a handler redeems a token.

  Go's \<open>int\<close> and \<open>int64\<close> values are \<open>int\<close> here: the generator only masks,
  shifts right and decrements, so no operation can overflow. Strings are byte lists.
\<close>

subsection \<open>Constants\<close>

definition StoreConfirmToken :: string where
  "StoreConfirmToken = ''confirm_token''"

definition StoreConfirmed :: string where
  "StoreConfirmed = ''confirmed''"

definition FormValueConfirm :: string where
  "FormValueConfirm = ''cnf''"

definition TokenLength :: int where
  "TokenLength = 6"

definition letterBytes :: string where
  "letterBytes = ''abcdefghijklmnopqrstuvwxyzABCDEFGHIJKLMNOPQRSTUVWXYZ''"

definition letterIdxBits :: nat where
  "letterIdxBits = 6"

definition letterIdxMask :: int where
  "letterIdxMask = push_bit letterIdxBits 1 - 1"

definition letterIdxMax :: int where
  "letterIdxMax = 63 div int letterIdxBits"

text \<open>
  Modelled from the spec: the constants \<open>authboss.StoreEmail\<close> and
  \<open>authboss.SessionKey\<close> of the host package, the names of the e-mail field of an
  account (\<open>email\<close> in the data model) and of the session entry that holds the
  logged-in identity. No statement below depends on the value of \<open>SessionKey\<close>.
\<close>

definition StoreEmail :: string where
  "StoreEmail = ''email''"

definition SessionKey :: string where
  "SessionKey = ''uid''"

subsection \<open>Errors, interrupts and dynamic values\<close>

datatype error =
    errUserMissing
  | ErrUserNotFound
  | ClientDataErr string
  | ErrAndRedirect string string
  | AttributeErr string
  | StorerErr string
  | MailErr string
  | Panic string

datatype interrupt = InterruptNone | InterruptAccountNotConfirmed

text \<open>
  A field of an account holds an \<open>interface{}\<close> value. The module reads strings and
  booleans; \<open>VOther\<close> stands for a value of any other dynamic type.
\<close>

datatype val = VString string | VBool bool | VOther

type_synonym attributes = "string \<rightharpoonup> val"

text \<open>
  Modelled from the spec: the accessors \<open>Attributes.BoolErr\<close> and
  \<open>Attributes.StringErr\<close> of the host package. They read a field of the field bag and
  fail with a field-access error when the field is absent or holds a value of another
  type. Reading a nil map finds no field, so a missing account reads like an empty one.
\<close>

definition BoolErr :: "attributes option \<Rightarrow> string \<Rightarrow> error + bool" where
  "BoolErr a key =
     (case a of
        None \<Rightarrow> Inl (AttributeErr key)
      | Some m \<Rightarrow>
          (case m key of
             Some (VBool v) \<Rightarrow> Inr v
           | _ \<Rightarrow> Inl (AttributeErr key)))"

definition StringErr :: "attributes option \<Rightarrow> string \<Rightarrow> error + string" where
  "StringErr a key =
     (case a of
        None \<Rightarrow> Inl (AttributeErr key)
      | Some m \<Rightarrow>
          (case m key of
             Some (VString v) \<Rightarrow> Inr v
           | _ \<Rightarrow> Inl (AttributeErr key)))"

subsection \<open>The token generator\<close>

text \<open>
  The process-wide source of \<open>math/rand\<close> is the stream of its raw 64-bit outputs.
  \<open>rand.Int63\<close> takes the next output and clears its top bit, which gives a
  non-negative 63-bit integer.
\<close>

type_synonym rand = "64 word stream"

definition Int63 :: "rand \<Rightarrow> int \<times> rand" where
  "Int63 g = (uint (take_bit 63 (shd g)), stl g)"

text \<open>
  The source that \<open>rand.Seed\<close> installs (\<open>init\<close> calls it) is the additive lagged
  Fibonacci generator \<open>rngSource\<close> of Go's library: it keeps the last \<open>rngLen\<close>
  outputs in a register, and each output is the sum, modulo \<open>2^64\<close>, of the outputs
  \<open>rngLen\<close> and \<open>rngTap\<close> places before it. \<open>rngSource vec\<close> is the stream that
  begins with the values \<open>vec\<close> and continues them by this recurrence. Whatever the
  seed and however many values have been drawn, the outputs still to come obey the
  recurrence, so they are the stream \<open>rngSource vec\<close> of their own first \<open>rngLen\<close>
  values: the streams the module can read are among those of the lists of length
  \<open>rngLen\<close>. \<open>additive\<close> states the recurrence on a stream, and \<open>low6\<close> is the
  lowest 6-bit value of an output.
\<close>

definition rngLen :: nat where
  "rngLen = 607"

definition rngTap :: nat where
  "rngTap = 273"

primcorec rngSource :: "64 word list \<Rightarrow> rand" where
  "shd (rngSource vec) = hd vec"
| "stl (rngSource vec) = rngSource (tl vec @ [hd vec + vec ! (rngLen - rngTap)])"

definition additive :: "rand \<Rightarrow> bool" where
  "additive g = (\<forall>n. g !! (n + rngLen) = g !! n + g !! (n + (rngLen - rngTap)))"

definition low6 :: "64 word \<Rightarrow> nat" where
  "low6 w = unat w mod 64"

text \<open>
  The loop of \<open>RandStringBytesMaskImpr\<close>, on its variables \<open>i\<close>, \<open>cache\<close>,
  \<open>remain\<close>, the random source and the buffer \<open>b\<close>. The loop has no bound on the
  number of rejected values, so it is a partial function: \<open>None\<close> is the loop that
  never ends. The write \<open>b[i]\<close> happens under \<open>0 \<le> i\<close> with \<open>i\<close> starting at
  \<open>n - 1\<close> and only decreasing, so it is always in range.
\<close>

partial_function (option) RandStringBytesMaskImpr_loop ::
  "int \<Rightarrow> int \<Rightarrow> int \<Rightarrow> rand \<Rightarrow> string \<Rightarrow> (string \<times> rand) option" where
  "RandStringBytesMaskImpr_loop i cache remain g b =
     (if 0 \<le> i then
        (let (cache1, remain1, g1) =
               (if remain = 0 then (let (r, g') = Int63 g in (r, letterIdxMax, g'))
                else (cache, remain, g));
             idx = cache1 AND letterIdxMask;
             (b1, i1) =
               (if idx < int (length letterBytes)
                then (b[nat i := letterBytes ! nat idx], i - 1)
                else (b, i))
         in RandStringBytesMaskImpr_loop i1 (drop_bit letterIdxBits cache1) (remain1 - 1) g1 b1)
      else Some (b, g))"

text \<open>
  \<open>make([]byte, n)\<close> panics with \<open>makeslice: len out of range\<close> on a negative
  length and on a length beyond the allocation limit of Go's runtime, \<open>maxAlloc\<close>
  (\<open>2^48\<close> bytes on the 64-bit platforms), before anything is drawn from the random
  source. Otherwise it gives \<open>n\<close> zero bytes: a length within the limit is taken to be
  allocated.
\<close>

definition maxAlloc :: int where
  "maxAlloc = 2 ^ 48"

definition RandStringBytesMaskImpr :: "int \<Rightarrow> rand \<Rightarrow> ((error + string) \<times> rand) option" where
  "RandStringBytesMaskImpr n g =
     (if n < 0 \<or> maxAlloc < n then Some (Inl (Panic ''makeslice: len out of range''), g)
      else
        (let b = replicate (nat n) (CHR 0x00);
             (cache, g0) = Int63 g
         in map_option (\<lambda>(b', g'). (Inr b', g'))
              (RandStringBytesMaskImpr_loop (n - 1) cache letterIdxMax g0 b)))"

text \<open>
  What the loop reads, for the statements below: the 6-bit values of one draw, lowest
  first (\<open>chunks\<close>), the values of the whole source in the order the loop meets them
  (\<open>sixbits\<close>), the values still ahead of a loop state (\<open>feed\<close>), the loop's test on a
  value (\<open>accepted\<close>) and the byte it selects (\<open>letter\<close>).
\<close>

definition chunks :: "int \<Rightarrow> nat \<Rightarrow> int list" where
  "chunks c r = map (\<lambda>j. drop_bit (letterIdxBits * j) c AND letterIdxMask) [0..<r]"

definition sixbits :: "rand \<Rightarrow> int stream" where
  "sixbits g = flat (smap (\<lambda>w. chunks (uint (take_bit 63 w)) (nat letterIdxMax)) g)"

definition feed :: "int \<Rightarrow> int \<Rightarrow> rand \<Rightarrow> int stream" where
  "feed cache remain g = chunks cache (nat remain) @- sixbits g"

definition accepted :: "int \<Rightarrow> bool" where
  "accepted v = (v < int (length letterBytes))"

definition letter :: "int \<Rightarrow> char" where
  "letter v = letterBytes ! nat v"

subsection \<open>Upper-casing\<close>

text \<open>
  \<open>strings.ToUpper\<close> of Go's library on ASCII text: a byte from \<open>a\<close> to \<open>z\<close> is
  lowered by \<open>'a' - 'A'\<close>, every other byte is kept. (The library maps letters outside
  ASCII by the Unicode tables; the model keeps those bytes, and the generator's tokens
  are ASCII.) \<open>lower_byte\<close> is the opposite map, used to speak of the letter cases of a
  token.
\<close>

definition upper_byte :: "char \<Rightarrow> char" where
  "upper_byte c =
     (if (97::nat) \<le> of_char c \<and> of_char c \<le> (122::nat)
      then char_of (of_char c - (32::nat)) else c)"


definition ToUpper :: "string \<Rightarrow> string" where
  "ToUpper s = map upper_byte s"


subsection \<open>The collaborators: storage, mail, session, response\<close>

text \<open>
  Modelled from the spec: the storage backend behind the \<open>ConfirmStorer\<close> interface.
  It keeps the accounts under their keys. \<open>ConfirmUser\<close> finds the first account whose
  \<open>confirm_token\<close> field is exactly the given string, and reports \<open>ErrUserNotFound\<close>
  when there is none; \<open>Put\<close> replaces the account kept under a key, or adds it. A
  backend can fail: \<open>lookup_fault\<close> and \<open>put_fault\<close> are the errors it answers with,
  when set. \<open>calls\<close> lists the operations a backend was asked for.
\<close>

datatype storer_call = CallConfirmUser string | CallPut string

record storer =
  accounts :: "(string \<times> attributes) list"
  lookup_fault :: "error option"
  put_fault :: "error option"
  calls :: "storer_call list"

definition has_token :: "string \<Rightarrow> string \<times> attributes \<Rightarrow> bool" where
  "has_token tok e = (snd e StoreConfirmToken = Some (VString tok))"

definition ConfirmUser :: "string \<Rightarrow> storer \<Rightarrow> (error + attributes) \<times> storer" where
  "ConfirmUser confirmToken st =
     (let st' = st\<lparr>calls := calls st @ [CallConfirmUser confirmToken]\<rparr> in
      case lookup_fault st of
        Some e \<Rightarrow> (Inl e, st')
      | None \<Rightarrow>
          (case find (has_token confirmToken) (accounts st) of
             None \<Rightarrow> (Inl ErrUserNotFound, st')
           | Some (k, u) \<Rightarrow> (Inr u, st')))"

definition put_account ::
  "string \<Rightarrow> attributes \<Rightarrow> (string \<times> attributes) list \<Rightarrow> (string \<times> attributes) list" where
  "put_account key attr as =
     (if key \<in> fst ` set as
      then map (\<lambda>(k, u). if k = key then (k, attr) else (k, u)) as
      else as @ [(key, attr)])"

definition Put :: "string \<Rightarrow> attributes \<Rightarrow> storer \<Rightarrow> error option \<times> storer" where
  "Put key attr st =
     (let st' = st\<lparr>calls := calls st @ [CallPut key]\<rparr> in
      case put_fault st of
        Some e \<Rightarrow> (Some e, st')
      | None \<Rightarrow> (None, st'\<lparr>accounts := put_account key attr (accounts st)\<rparr>))"

text \<open>
  The redemption URL is the text that \<open>fmt.Sprintf\<close> builds from the root URL, the
  path \<open>path.Join(MountPath, "confirm")\<close> and the query-escaped parameter name and
  token. The model keeps the four parts instead of the text.
\<close>

datatype url = ConfirmURL string "string list" string string

text \<open>
  Modelled from the spec: the message \<open>authboss.Email\<close> of the host package, with the
  fields the module fills (destination addresses, sender, subject).
\<close>

record email =
  To :: "string list"
  From :: string
  Subject :: string

text \<open>
  Modelled from the spec: the collaborator \<open>response.Redirect\<close> answers the request
  with a redirect. The response is the call with its arguments: the path, the success
  and failure messages, and whether a redirect asked for by the request is followed.
\<close>

datatype response = Redirect string string string bool

text \<open>
  The configuration of the host (\<open>authboss.Authboss\<close>), as far as the module reads it.
  \<open>MailMaker\<close> tells whether a mail maker is configured (the field is not nil).
\<close>

record config =
  PrimaryID :: string
  MountPath :: string
  RootURL :: string
  EmailFrom :: string
  EmailSubjectPrefix :: string
  RegisterOKPath :: string
  AllowInsecureLoginAfterConfirm :: bool
  MailMaker :: bool

text \<open>
  Modelled from the spec: the request context \<open>authboss.Context\<close> of the host package,
  with the state the module touches: the account in the context (\<open>None\<close> is nil), the
  storage backend, the session store, the log sink, the delivery collaborator, the
  messages handed to it, the tasks started with \<open>go\<close> and not yet run, and the
  response written. \<open>Mailer\<close> is the outcome of \<open>response.Email\<close> for a message and a
  URL (rendering and sending): any function is a possible collaborator.
\<close>

record "context" =
  User :: "attributes option"
  Storer :: storer
  SessionStorer :: "string \<rightharpoonup> string"
  LogWriter :: "(string \<times> error) list"
  Mailer :: "email \<Rightarrow> url \<Rightarrow> error option"
  Outbox :: "(email \<times> url) list"
  Detached :: "(string \<times> string) list"
  Response :: "response option"

text \<open>
  Modelled from the spec: \<open>Context.SaveUser\<close> of the host package persists the account
  of the context under its primary identity key. It fails when that key cannot be read
  from the account, and with the backend's error when the backend fails.
\<close>

definition SaveUser :: "config \<Rightarrow> context \<Rightarrow> error option \<times> context" where
  "SaveUser c ctx =
     (case User ctx of
        None \<Rightarrow> (Some (AttributeErr (PrimaryID c)), ctx)
      | Some u \<Rightarrow>
          (case StringErr (Some u) (PrimaryID c) of
             Inl e \<Rightarrow> (Some e, ctx)
           | Inr key \<Rightarrow>
               (let (r, st) = Put key u (Storer ctx)
                in (r, ctx\<lparr>Storer := st\<rparr>))))"

text \<open>Modelled from the spec: \<open>authboss.Unbind\<close> turns the stored user into its field bag.\<close>

definition Unbind :: "attributes \<Rightarrow> attributes" where
  "Unbind user = user"

subsection \<open>The gate\<close>

definition beforeGet :: "config \<Rightarrow> context \<Rightarrow> interrupt \<times> error option" where
  "beforeGet c ctx =
     (case BoolErr (User ctx) StoreConfirmed of
        Inl err \<Rightarrow> (InterruptNone, Some err)
      | Inr confirmed \<Rightarrow>
          if \<not> confirmed then (InterruptAccountNotConfirmed, None)
          else (InterruptNone, None))"

subsection \<open>The registration hook\<close>

definition confirmEmail :: "config \<Rightarrow> context \<Rightarrow> string \<Rightarrow> string \<Rightarrow> context" where
  "confirmEmail c ctx to token =
     (let p = [MountPath c, ''confirm''];
          url = ConfirmURL (RootURL c) p FormValueConfirm token;
          email = \<lparr>To = [to], From = EmailFrom c,
                   Subject = EmailSubjectPrefix c @ ''Confirm New Account''\<rparr>;
          err = Mailer ctx email url;
          ctx1 = ctx\<lparr>Outbox := Outbox ctx @ [(email, url)]\<rparr>
      in case err of
           Some e \<Rightarrow> ctx1\<lparr>LogWriter := LogWriter ctx1 @ [(''confirm: Failed to send e-mail: %v'', e)]\<rparr>
         | None \<Rightarrow> ctx1)"

text \<open>
  With a mail maker the message is sent at once; otherwise \<open>go\<close> starts the sending as
  a task of its own, which the model records in \<open>Detached\<close> and \<open>run_detached\<close> runs.
\<close>

definition goConfirmEmail :: "config \<Rightarrow> context \<Rightarrow> string \<Rightarrow> string \<Rightarrow> context" where
  "goConfirmEmail c ctx to token =
     (if MailMaker c then confirmEmail c ctx to token
      else ctx\<lparr>Detached := Detached ctx @ [(to, token)]\<rparr>)"

fun run_detached :: "config \<Rightarrow> (string \<times> string) list \<Rightarrow> context \<Rightarrow> context" where
  "run_detached c [] ctx = ctx"
| "run_detached c ((to, token) # ts) ctx = run_detached c ts (confirmEmail c ctx to token)"

text \<open>
  The hook reads the process-wide random source, so it takes and returns it. It does not
  return when the generator does not.
\<close>

definition afterRegister ::
  "config \<Rightarrow> context \<Rightarrow> rand \<Rightarrow> ((error option \<times> context) \<times> rand) option" where
  "afterRegister c ctx g =
     (case User ctx of
        None \<Rightarrow> Some ((Some errUserMissing, ctx), g)
      | Some u \<Rightarrow>
          (case RandStringBytesMaskImpr TokenLength g of
             None \<Rightarrow> None
           | Some (Inl e, g') \<Rightarrow> Some ((Some e, ctx), g')
           | Some (Inr token, g') \<Rightarrow>
               (let ctx1 = ctx\<lparr>User := Some (u(StoreConfirmToken \<mapsto> VString (ToUpper token)))\<rparr>;
                    (r, ctx2) = SaveUser c ctx1
                in case r of
                     Some err \<Rightarrow> Some ((Some err, ctx2), g')
                   | None \<Rightarrow>
                       (case StringErr (User ctx2) StoreEmail of
                          Inl err \<Rightarrow> Some ((Some err, ctx2), g')
                        | Inr email \<Rightarrow> Some ((None, goConfirmEmail c ctx2 email token), g')))))"

subsection \<open>The confirmation handler\<close>

text \<open>
  The request is its form value \<open>cnf\<close>. The result is the error returned (\<open>None\<close> is
  nil) and the context after the call.
\<close>

definition confirmHandler :: "config \<Rightarrow> context \<Rightarrow> string \<Rightarrow> error option \<times> context" where
  "confirmHandler c ctx token =
     (if length token = 0 then (Some (ClientDataErr FormValueConfirm), ctx)
      else
        (let (res, st) = ConfirmUser (ToUpper token) (Storer ctx);
             ctx1 = ctx\<lparr>Storer := st\<rparr>
         in case res of
              Inl err \<Rightarrow>
                if err = ErrUserNotFound
                then (Some (ErrAndRedirect ''/'' ''confirm: token not found''), ctx1)
                else (Some err, ctx1)
            | Inr user \<Rightarrow>
                (let u = Unbind user;
                     u1 = u(StoreConfirmToken \<mapsto> VString '''');
                     u2 = u1(StoreConfirmed \<mapsto> VBool True);
                     ctx2 = ctx1\<lparr>User := Some u2\<rparr>;
                     (r, ctx3) = SaveUser c ctx2
                 in case r of
                      Some err \<Rightarrow> (Some err, ctx3)
                    | None \<Rightarrow>
                        (let redirect = (\<lambda>x. x\<lparr>Response := Some
                               (Redirect (RegisterOKPath c)
                                  ''You have successfully confirmed your account.'' '''' True)\<rparr>)
                         in if AllowInsecureLoginAfterConfirm c then
                              (case StringErr (User ctx3) (PrimaryID c) of
                                 Inl err \<Rightarrow> (Some err, ctx3)
                               | Inr key \<Rightarrow>
                                   (None, redirect
                                      (ctx3\<lparr>SessionStorer := (SessionStorer ctx3)(SessionKey \<mapsto> key)\<rparr>)))
                            else (None, redirect ctx3)))))"

subsection \<open>The confirmation state of an account\<close>

text \<open>
  The invariant of the specification on the fields of an account, and a freshly created
  account: not confirmed, no token.
\<close>

definition account_invariant :: "attributes \<Rightarrow> bool" where
  "account_invariant u =
     (u StoreConfirmed = Some (VBool True) \<longrightarrow> u StoreConfirmToken = Some (VString ''''))"

definition fresh_account :: "attributes \<Rightarrow> bool" where
  "fresh_account u = (u StoreConfirmed = Some (VBool False) \<and> u StoreConfirmToken = None)"

text \<open>
  The account states reachable from a fresh account under the two operations that write
  an account. The hook is registered for the registration event only, so it runs on the
  account a registration has just created, which is not confirmed; it is run on a
  context that holds the account. The handler is run with a token for which the backend
  finds the account. Both leave the new state of the account in the context.
\<close>

inductive lifecycle :: "attributes \<Rightarrow> bool" where
  fresh: "fresh_account u \<Longrightarrow> lifecycle u"
| hook: "lifecycle u \<Longrightarrow> u StoreConfirmed \<noteq> Some (VBool True) \<Longrightarrow> User ctx = Some u \<Longrightarrow>
         afterRegister c ctx g = Some ((r, ctx'), g') \<Longrightarrow> User ctx' = Some u' \<Longrightarrow> lifecycle u'"
| redeem: "lifecycle u \<Longrightarrow> token \<noteq> [] \<Longrightarrow>
         fst (ConfirmUser (ToUpper token) (Storer ctx)) = Inr u \<Longrightarrow>
         confirmHandler c ctx token = (r, ctx') \<Longrightarrow> User ctx' = Some u' \<Longrightarrow> lifecycle u'"

subsection \<open>A concrete scenario\<close>

text \<open>
  A configuration with a mail maker, two fresh accounts, a backend with no account and
  no fault, a mailer that fails, and a random source whose every output is 0, on which
  every token is \<open>aaaaaa\<close>.
\<close>

definition cfg0 :: config where
  "cfg0 = \<lparr>PrimaryID = ''email'', MountPath = ''/auth'', RootURL = ''http://localhost'',
     EmailFrom = ''noreply@example.com'', EmailSubjectPrefix = ''[app] '',
     RegisterOKPath = ''/welcome'', AllowInsecureLoginAfterConfirm = False, MailMaker = True\<rparr>"

definition alice :: attributes where
  "alice = [''email'' \<mapsto> VString ''alice@example.com'', ''confirmed'' \<mapsto> VBool False]"

definition bob :: attributes where
  "bob = [''email'' \<mapsto> VString ''bob@example.com'', ''confirmed'' \<mapsto> VBool False]"

definition store0 :: storer where
  "store0 = \<lparr>accounts = [], lookup_fault = None, put_fault = None, calls = []\<rparr>"

definition ctx0 :: "context" where
  "ctx0 = \<lparr>User = Some alice, Storer = store0, SessionStorer = Map.empty, LogWriter = [],
     Mailer = (\<lambda>m u. Some (MailErr ''connection refused'')), Outbox = [], Detached = [],
     Response = None\<rparr>"

definition zeros :: rand where
  "zeros = sconst 0"

text \<open>
  The context after the hook has run for the first account, and a backend that holds
  this account and fails on every write.
\<close>

definition alice_registered :: attributes where
  "alice_registered = alice(''confirm_token'' \<mapsto> VString ''AAAAAA'')"

definition ctx_registered :: "context" where
  "ctx_registered = ctx0\<lparr>
     User := Some alice_registered,
     Storer := store0\<lparr>accounts := [(''alice@example.com'', alice_registered)],
       calls := [CallPut ''alice@example.com'']\<rparr>,
     LogWriter := [(''confirm: Failed to send e-mail: %v'', MailErr ''connection refused'')],
     Outbox := [(\<lparr>To = [''alice@example.com''], From = ''noreply@example.com'',
                   Subject = ''[app] Confirm New Account''\<rparr>,
                 ConfirmURL ''http://localhost'' [''/auth'', ''confirm''] ''cnf'' ''aaaaaa'')]\<rparr>"

definition ctx_read_only :: "context" where
  "ctx_read_only = ctx0\<lparr>
     Storer := store0\<lparr>accounts := [(''alice@example.com'', alice_registered)],
       put_fault := Some (StorerErr ''read-only'')\<rparr>\<rparr>"

text \<open>The first account after its token is redeemed.\<close>

definition alice_confirmed :: attributes where
  "alice_confirmed = alice_registered(''confirm_token'' \<mapsto> VString '''', ''confirmed'' \<mapsto> VBool True)"

text \<open>
  The context after the token of the first account is redeemed; the second account
  after the hook, which draws the same token from the same source, and after its
  redemption; the context that holds both registered accounts.
\<close>

definition ctx_confirmed :: "context" where
  "ctx_confirmed = ctx_registered\<lparr>
     User := Some alice_confirmed,
     Storer := store0\<lparr>accounts := [(''alice@example.com'', alice_confirmed)],
       calls := [CallPut ''alice@example.com'', CallConfirmUser ''AAAAAA'',
                 CallPut ''alice@example.com'']\<rparr>,
     Response := Some (Redirect ''/welcome''
       ''You have successfully confirmed your account.'' '''' True)\<rparr>"

definition bob_registered :: attributes where
  "bob_registered = bob(''confirm_token'' \<mapsto> VString ''AAAAAA'')"

definition bob_confirmed :: attributes where
  "bob_confirmed = bob_registered(''confirm_token'' \<mapsto> VString '''', ''confirmed'' \<mapsto> VBool True)"

definition ctx_both :: "context" where
  "ctx_both = ctx0\<lparr>
     User := Some bob_registered,
     Storer := store0\<lparr>accounts := [(''alice@example.com'', alice_registered),
         (''bob@example.com'', bob_registered)],
       calls := [CallPut ''alice@example.com'', CallPut ''bob@example.com'']\<rparr>,
     LogWriter := [(''confirm: Failed to send e-mail: %v'', MailErr ''connection refused''),
       (''confirm: Failed to send e-mail: %v'', MailErr ''connection refused'')],
     Outbox := [(\<lparr>To = [''alice@example.com''], From = ''noreply@example.com'',
                   Subject = ''[app] Confirm New Account''\<rparr>,
                 ConfirmURL ''http://localhost'' [''/auth'', ''confirm''] ''cnf'' ''aaaaaa''),
                (\<lparr>To = [''bob@example.com''], From = ''noreply@example.com'',
                   Subject = ''[app] Confirm New Account''\<rparr>,
                 ConfirmURL ''http://localhost'' [''/auth'', ''confirm''] ''cnf'' ''aaaaaa'')]\<rparr>"


subsection \<open>Alphabets and a register of the generator\<close>

text \<open>
  The letters and digits of ASCII, and the alphabet \<open>[a-zA-Z0-9]\<close> the specification
  names. \<open>ones\<close> is the register of the generator whose every value is 1.
\<close>

definition ascii_letters :: "char set" where
  "ascii_letters = set ''abcdefghijklmnopqrstuvwxyz'' \<union> set ''ABCDEFGHIJKLMNOPQRSTUVWXYZ''"

definition ascii_digits :: "char set" where
  "ascii_digits = set ''0123456789''"

definition alnum :: "char set" where
  "alnum = ascii_letters \<union> ascii_digits"

definition ones :: "64 word list" where
  "ones = replicate rngLen 1"

section \<open>The token generator\<close>

subsection \<open>The values the loop reads\<close>


lemma chunks_0 [simp]: "chunks c 0 = []"
  by (simp add: chunks_def)

lemma upt_Suc_shift: "[0..<Suc r] = 0 # map Suc [0..<r]"
  by (simp only: map_Suc_upt upt_conv_Cons [OF zero_less_Suc])

lemma chunks_Suc: "chunks c (Suc r) = (c AND letterIdxMask) # chunks (drop_bit letterIdxBits c) r"
  unfolding chunks_def upt_Suc_shift
  by (simp add: comp_def add.commute [of letterIdxBits])

lemma sixbits_unfold: "sixbits g = chunks (fst (Int63 g)) (nat letterIdxMax) @- sixbits (stl g)"
proof -
  have "chunks (uint (take_bit 63 (shd g))) (nat letterIdxMax) \<noteq> []"
    by (simp add: chunks_def letterIdxMax_def letterIdxBits_def)
  then show ?thesis
    unfolding sixbits_def Int63_def
    by (subst flat_unfold) simp_all
qed

lemma feed_0: "feed cache 0 g = feed (fst (Int63 g)) letterIdxMax (snd (Int63 g))"
proof -
  have "feed cache 0 g = sixbits g"
    by (simp add: feed_def)
  also have "\<dots> = chunks (fst (Int63 g)) (nat letterIdxMax) @- sixbits (stl g)"
    by (rule sixbits_unfold)
  also have "\<dots> = feed (fst (Int63 g)) letterIdxMax (snd (Int63 g))"
    by (simp add: feed_def Int63_def)
  finally show ?thesis .
qed

lemma feed_pos:
  assumes "0 < remain"
  shows "feed cache remain g =
    (cache AND letterIdxMask) ## feed (drop_bit letterIdxBits cache) (remain - 1) g"
proof -
  from assms have "nat remain = Suc (nat (remain - 1))"
    by linarith
  then show ?thesis
    by (simp add: feed_def chunks_Suc)
qed

text \<open>One turn of the loop takes the first value ahead of the state.\<close>

lemma loop_turn:
  assumes "0 \<le> i" "0 \<le> remain"
  shows "let cache1 = (if remain = 0 then fst (Int63 g) else cache);
             remain1 = (if remain = 0 then letterIdxMax else remain);
             g1 = (if remain = 0 then snd (Int63 g) else g);
             idx = cache1 AND letterIdxMask
         in feed cache remain g = idx ## feed (drop_bit letterIdxBits cache1) (remain1 - 1) g1 \<and>
            0 \<le> remain1 - 1 \<and>
            RandStringBytesMaskImpr_loop i cache remain g b =
              (if accepted idx
               then RandStringBytesMaskImpr_loop (i - 1) (drop_bit letterIdxBits cache1) (remain1 - 1) g1
                      (b[nat i := letter idx])
               else RandStringBytesMaskImpr_loop i (drop_bit letterIdxBits cache1) (remain1 - 1) g1 b)"
proof -
  define cache1 where "cache1 = (if remain = 0 then fst (Int63 g) else cache)"
  define remain1 where "remain1 = (if remain = 0 then letterIdxMax else remain)"
  define g1 where "g1 = (if remain = 0 then snd (Int63 g) else g)"
  define idx where "idx = cache1 AND letterIdxMask"
  have pos: "0 < remain1"
    using assms(2) by (simp add: remain1_def letterIdxMax_def letterIdxBits_def)
  have fd: "feed cache remain g = idx ## feed (drop_bit letterIdxBits cache1) (remain1 - 1) g1"
  proof (cases "remain = 0")
    case True
    then show ?thesis
      using feed_pos [OF pos, of cache1 g1] feed_0 [of cache g]
      by (simp add: cache1_def remain1_def g1_def idx_def)
  next
    case False
    then show ?thesis
      using feed_pos [OF pos, of cache1 g1]
      by (simp add: cache1_def remain1_def g1_def idx_def)
  qed
  have step: "RandStringBytesMaskImpr_loop i cache remain g b =
        (if accepted idx
         then RandStringBytesMaskImpr_loop (i - 1) (drop_bit letterIdxBits cache1) (remain1 - 1) g1
                (b[nat i := letter idx])
         else RandStringBytesMaskImpr_loop i (drop_bit letterIdxBits cache1) (remain1 - 1) g1 b)"
    using assms(1)
    by (subst RandStringBytesMaskImpr_loop.simps)
      (simp add: cache1_def remain1_def g1_def idx_def accepted_def letter_def split_beta)
  from pos fd step show ?thesis
    unfolding Let_def cache1_def [symmetric] remain1_def [symmetric] g1_def [symmetric]
      idx_def [symmetric]
    by simp
qed

lemma loop_done: "i < 0 \<Longrightarrow> RandStringBytesMaskImpr_loop i cache remain g b = Some (b, g)"
  by (subst RandStringBytesMaskImpr_loop.simps) simp

lemma loop_spec:
  "- 1 \<le> i \<Longrightarrow> nat (i + 1) \<le> length b \<Longrightarrow> 0 \<le> remain \<Longrightarrow>
   nat (i + 1) \<le> length (filter accepted (stake k (feed cache remain g))) \<Longrightarrow>
   \<exists>g'. RandStringBytesMaskImpr_loop i cache remain g b =
     Some (rev (map letter (take (nat (i + 1)) (filter accepted (stake k (feed cache remain g)))))
             @ drop (nat (i + 1)) b, g')"
proof (induction k arbitrary: i cache remain g b)
  case 0
  then have "i = - 1" by simp
  then show ?case by (simp add: loop_done)
next
  case (Suc k)
  show ?case
  proof (cases "0 \<le> i")
    case False
    with Suc.prems have "i = - 1" by simp
    then show ?thesis by (simp add: loop_done)
  next
    case True
    define cache1 where "cache1 = (if remain = 0 then fst (Int63 g) else cache)"
    define remain1 where "remain1 = (if remain = 0 then letterIdxMax else remain)"
    define g1 where "g1 = (if remain = 0 then snd (Int63 g) else g)"
    define idx where "idx = cache1 AND letterIdxMask"
    note turn = loop_turn [OF True Suc.prems(3), where g = g and cache = cache and b = b,
        unfolded Let_def, folded cache1_def remain1_def g1_def idx_def, THEN conjunct1]
      loop_turn [OF True Suc.prems(3), where g = g and cache = cache and b = b,
        unfolded Let_def, folded cache1_def remain1_def g1_def idx_def, THEN conjunct2, THEN conjunct1]
      loop_turn [OF True Suc.prems(3), where g = g and cache = cache and b = b,
        unfolded Let_def, folded cache1_def remain1_def g1_def idx_def, THEN conjunct2, THEN conjunct2]
    let ?rest = "filter accepted (stake k (feed (drop_bit letterIdxBits cache1) (remain1 - 1) g1))"
    show ?thesis
    proof (cases "accepted idx")
      case False
      with Suc.prems turn(1) have "nat (i + 1) \<le> length ?rest" by simp
      from Suc.IH [OF Suc.prems(1) Suc.prems(2) turn(2) this] False turn(1,3)
      show ?thesis by simp
    next
      case acc: True
      have ilen: "nat i < length b" using True Suc.prems(2) by linarith
      have i1: "nat (i - 1 + 1) = nat i" "nat (i + 1) = Suc (nat i)"
        using True by simp_all
      from Suc.prems(4) turn(1) acc have "nat (i - 1 + 1) \<le> length ?rest"
        by (simp add: i1)
      moreover have "- 1 \<le> i - 1" using True by simp
      moreover have "nat (i - 1 + 1) \<le> length (b[nat i := letter idx])"
        using ilen by (simp add: i1)
      ultimately obtain g' where
        "RandStringBytesMaskImpr_loop (i - 1) (drop_bit letterIdxBits cache1) (remain1 - 1) g1 (b[nat i := letter idx]) =
          Some (rev (map letter (take (nat (i - 1 + 1)) ?rest)) @ drop (nat (i - 1 + 1)) (b[nat i := letter idx]), g')"
        using Suc.IH turn(2) by blast
      moreover have "drop (nat i) (b[nat i := letter idx]) = letter idx # drop (Suc (nat i)) b"
        using ilen by (simp add: Cons_nth_drop_Suc [symmetric] upd_conv_take_nth_drop)
      ultimately show ?thesis
        using turn(1,3) acc by (simp add: i1)
    qed
  qed
qed



lemma letterIdxMax_eq: "letterIdxMax = 10"
  by (simp add: letterIdxMax_def letterIdxBits_def)

lemma feed_start: "feed (fst (Int63 g)) letterIdxMax (snd (Int63 g)) = sixbits g"
  using feed_0 [of 0 g] by (simp add: feed_def)

lemma RandString_spec:
  assumes "0 \<le> n" and "n \<le> maxAlloc"
    and "nat n \<le> length (filter accepted (stake k (sixbits g)))"
  shows "\<exists>g'. RandStringBytesMaskImpr n g =
    Some (Inr (rev (map letter (take (nat n) (filter accepted (stake k (sixbits g)))))), g')"
proof -
  have "\<exists>g'. RandStringBytesMaskImpr_loop (n - 1) (fst (Int63 g)) letterIdxMax (snd (Int63 g))
          (replicate (nat n) (CHR 0x00)) =
        Some (rev (map letter (take (nat (n - 1 + 1))
                (filter accepted (stake k (feed (fst (Int63 g)) letterIdxMax (snd (Int63 g)))))))
              @ drop (nat (n - 1 + 1)) (replicate (nat n) (CHR 0x00)), g')"
  proof (rule loop_spec)
    show "0 \<le> letterIdxMax" by (simp add: letterIdxMax_eq)
  qed (use assms in \<open>simp_all add: feed_start\<close>)
  then show ?thesis
    using assms(1,2) by (auto simp add: RandStringBytesMaskImpr_def feed_start split_beta)
qed


lemma chunk_range: "0 \<le> c AND letterIdxMask \<and> c AND letterIdxMask \<le> 63"
  by (simp add: letterIdxMask_def letterIdxBits_def AND_upper2)

lemma chunks_range: "v \<in> set (chunks c r) \<Longrightarrow> 0 \<le> v \<and> v \<le> 63"
  using chunk_range by (auto simp add: chunks_def)

lemma length_chunks [simp]: "length (chunks c r) = r"
  by (simp add: chunks_def)

lemma upt_10: "[0..<10] = [0, 1, 2, 3, 4, 5, 6, 7, 8, 9]"
  by code_simp

lemma chunks_10:
  "chunks c 10 =
    [c AND 63, drop_bit 6 c AND 63, drop_bit 12 c AND 63, drop_bit 18 c AND 63,
     drop_bit 24 c AND 63, drop_bit 30 c AND 63, drop_bit 36 c AND 63, drop_bit 42 c AND 63,
     drop_bit 48 c AND 63, drop_bit 54 c AND 63]"
  by (simp add: chunks_def upt_10 letterIdxBits_def letterIdxMask_def)

lemma sset_sixbits:
  "sset (sixbits g) = (\<Union>w \<in> sset g. set (chunks (uint (take_bit 63 w)) (nat letterIdxMax)))"
proof -
  have "\<forall>xs \<in> sset (smap (\<lambda>w. chunks (uint (take_bit 63 w)) (nat letterIdxMax)) g). xs \<noteq> []"
  proof
    fix xs
    assume "xs \<in> sset (smap (\<lambda>w. chunks (uint (take_bit 63 w)) (nat letterIdxMax)) g)"
    then have "length xs = nat letterIdxMax" by (auto simp add: stream.set_map)
    then show "xs \<noteq> []" by (auto simp add: letterIdxMax_eq)
  qed
  then show ?thesis
    unfolding sixbits_def by (subst sset_flat) (auto simp add: stream.set_map)
qed

lemma sixbits_range: "v \<in> sset (sixbits g) \<Longrightarrow> 0 \<le> v \<and> v \<le> 63"
  unfolding sset_sixbits using chunks_range by blast

lemma stake_sixbits:
  "k \<le> 10 \<Longrightarrow> stake k (sixbits g) = take k (chunks (fst (Int63 g)) 10)"
  by (subst sixbits_unfold) (simp add: stake_shift letterIdxMax_eq)

lemma length_letterBytes: "length letterBytes = 52"
  by (simp add: letterBytes_def)

lemma accepted_iff: "accepted v \<longleftrightarrow> v < 52"
  by (simp add: accepted_def length_letterBytes)

lemma letter_in_alphabet: "0 \<le> v \<Longrightarrow> accepted v \<Longrightarrow> letter v \<in> set letterBytes"
  by (simp add: letter_def accepted_def)


lemma set_stake_subset: "set (stake k s) \<subseteq> sset s"
  by (auto simp add: in_set_conv_nth stake_nth)

lemma set_letterBytes: "set letterBytes = ascii_letters"
proof -
  have lb: "letterBytes = ''abcdefghijklmnopqrstuvwxyz'' @ ''ABCDEFGHIJKLMNOPQRSTUVWXYZ''"
    by (simp add: letterBytes_def)
  show ?thesis
    unfolding ascii_letters_def by (subst lb) (rule set_append)
qed

lemma map_of_char_letterBytes:
  "map of_char letterBytes = [97..<123] @ [65..<(91::nat)]"
  unfolding letterBytes_def by code_simp

lemma distinct_letterBytes: "distinct letterBytes"
proof -
  have "distinct ([97..<123] @ [65..<(91::nat)])"
    by auto
  then have "distinct (map (of_char :: char \<Rightarrow> nat) letterBytes)"
    by (simp only: map_of_char_letterBytes)
  then show ?thesis
    by (simp add: distinct_map)
qed

lemma letter_inj: "inj_on letter {0..<52}"
proof (rule inj_onI)
  fix v w :: int
  assume "v \<in> {0..<52}" "w \<in> {0..<52}" "letter v = letter w"
  then have "nat v < length letterBytes" "nat w < length letterBytes"
    "letterBytes ! nat v = letterBytes ! nat w" 
    by (auto simp add: length_letterBytes letter_def)
  then have "nat v = nat w" 
    using distinct_letterBytes by (simp add: nth_eq_iff_index_eq)
  then have "int (nat v) = int (nat w)" by simp
  with \<open>v \<in> {0..<52}\<close> \<open>w \<in> {0..<52}\<close> show "v = w" by simp
qed

lemma letter_image: "letter ` {0..<52} = set letterBytes"
proof -
  have "{0..<52::int} = int ` {0..<52}"
    by (simp add: image_int_atLeastLessThan)
  then have "letter ` {0..<52} = nth letterBytes ` {0..<52}"
    by (simp add: image_comp comp_def letter_def)
  also have "\<dots> = set letterBytes"
    using nth_image [of 52 letterBytes] by (simp add: length_letterBytes)
  finally show ?thesis .
qed

lemma accepted_letters:
  "set (map letter (take m (filter accepted (stake k (sixbits g))))) \<subseteq> set letterBytes"
proof -
  have "\<forall>v \<in> set (filter accepted (stake k (sixbits g))). letter v \<in> set letterBytes"
    using set_stake_subset [of k "sixbits g"] sixbits_range [of _ g]
    by (auto intro: letter_in_alphabet)
  then show ?thesis
    by (auto dest: in_set_takeD)
qed


subsection \<open>The seeded source\<close>

text \<open>
  A stream of the generator follows the additive recurrence. On such a stream the lowest
  6-bit values of the outputs cannot stay at 52 or more: counted down from 64 they would
  grow with every \<open>rngLen\<close> outputs. So the loop meets as many accepted values as it
  needs.
\<close>

lemma rngSource_window:
  "length vec = rngLen \<Longrightarrow> i < rngLen \<Longrightarrow> rngSource vec !! i = vec ! i"
proof (induction i arbitrary: vec)
  case 0
  then show ?case by (cases vec) (simp_all add: rngLen_def)
next
  case (Suc i)
  let ?vec' = "tl vec @ [hd vec + vec ! (rngLen - rngTap)]"
  from Suc.prems have len: "length ?vec' = rngLen" and i: "i < length (tl vec)"
    by (simp_all add: rngLen_def)
  have "rngSource vec !! Suc i = rngSource ?vec' !! i" by simp
  also have "\<dots> = ?vec' ! i"
    using Suc.prems by (intro Suc.IH len) simp
  also have "\<dots> = vec ! Suc i"
    using i by (simp add: nth_append nth_tl)
  finally show ?case .
qed

lemma rngSource_next:
  assumes "length vec = rngLen"
  shows "rngSource vec !! rngLen = vec ! 0 + vec ! (rngLen - rngTap)"
proof -
  let ?vec' = "tl vec @ [hd vec + vec ! (rngLen - rngTap)]"
  from assms have len: "length ?vec' = rngLen" and ne: "vec \<noteq> []"
    by (auto simp add: rngLen_def)
  have "rngLen = Suc (rngLen - 1)" by (simp add: rngLen_def)
  then have "rngSource vec !! rngLen = rngSource ?vec' !! (rngLen - 1)"
    by (metis snth.simps(2) rngSource.simps(2))
  also have "\<dots> = ?vec' ! (rngLen - 1)"
    by (rule rngSource_window [OF len]) (simp add: rngLen_def)
  also have "\<dots> = hd vec + vec ! (rngLen - rngTap)"
    using assms by (simp add: nth_append)
  finally show ?thesis using ne by (simp add: hd_conv_nth)
qed

lemma rngSource_sdrop:
  "length vec = rngLen \<Longrightarrow> \<exists>vec'. length vec' = rngLen \<and> sdrop n (rngSource vec) = rngSource vec'"
proof (induction n arbitrary: vec)
  case 0
  then show ?case by auto
next
  case (Suc n)
  let ?vec' = "tl vec @ [hd vec + vec ! (rngLen - rngTap)]"
  from Suc.prems have "length ?vec' = rngLen" by (simp add: rngLen_def)
  from Suc.IH [OF this] show ?case by simp
qed

lemma rngSource_additive:
  assumes "length vec = rngLen"
  shows "additive (rngSource vec)"
  unfolding additive_def
proof
  fix n
  from rngSource_sdrop [OF assms, of n] obtain vec' where
    len: "length vec' = rngLen" and drop: "sdrop n (rngSource vec) = rngSource vec'"
    by blast
  have "rngSource vec !! (n + rngLen) = sdrop n (rngSource vec) !! rngLen"
    by (simp add: sdrop_snth add.commute)
  also have "\<dots> = vec' ! 0 + vec' ! (rngLen - rngTap)"
    unfolding drop by (rule rngSource_next [OF len])
  also have "\<dots> = rngSource vec' !! 0 + rngSource vec' !! (rngLen - rngTap)"
    using len by (simp add: rngSource_window rngLen_def rngTap_def del: snth.simps)
  also have "\<dots> = rngSource vec !! n + rngSource vec !! (n + (rngLen - rngTap))"
    unfolding drop [symmetric] by (simp add: sdrop_snth add.commute)
  finally show "rngSource vec !! (n + rngLen) =
      rngSource vec !! n + rngSource vec !! (n + (rngLen - rngTap))" .
qed

lemma low6_add: "low6 (a + b) = (low6 a + low6 b) mod 64"
proof -
  have "unat (a + b) mod 64 = ((unat a + unat b) mod 2 ^ 64) mod 64"
    by (simp add: unat_word_ariths)
  also have "\<dots> = (unat a + unat b) mod 64"
    by (rule mod_mod_cancel) simp
  finally show ?thesis
    by (simp add: low6_def mod_add_eq)
qed

lemma low6_less: "low6 w < 64"
  by (simp add: low6_def)

lemma first_chunk: "uint (take_bit 63 w) AND letterIdxMask = int (low6 w)"
proof -
  have "uint (take_bit 63 w) AND 63 = take_bit 6 (uint (take_bit 63 w))"
    by (simp add: take_bit_eq_mask mask_eq_exp_minus_1)
  also have "\<dots> = take_bit 6 (uint w)"
    by (simp add: unsigned_take_bit_eq)
  also have "\<dots> = int (unat w mod 64)"
    by (simp add: take_bit_eq_mod zmod_int)
  finally show ?thesis
    by (simp add: letterIdxMask_def letterIdxBits_def low6_def)
qed

lemma additive_sdrop:
  assumes "additive g"
  shows "additive (sdrop d g)"
  unfolding additive_def sdrop_snth
proof
  fix n
  from assms [unfolded additive_def, rule_format, of "d + n"]
  show "g !! (d + (n + rngLen)) = g !! (d + n) + g !! (d + (n + (rngLen - rngTap)))"
    by (simp add: add.assoc)
qed

lemma additive_descent:
  assumes "additive g"
    and "\<forall>j \<le> 12 * rngLen. 52 \<le> low6 (g !! (N + j))"
  shows "k \<le> 12 \<Longrightarrow> low6 (g !! (N + k * rngLen)) + k \<le> 63"
proof (induction k)
  case 0
  then show ?case using low6_less [of "g !! N"] by simp
next
  case (Suc k)
  let ?a = "low6 (g !! (N + k * rngLen))"
  let ?b = "low6 (g !! (N + k * rngLen + (rngLen - rngTap)))"
  from Suc have a: "?a + k \<le> 63" by simp
  have "k * rngLen + (rngLen - rngTap) \<le> 12 * rngLen"
    using Suc.prems by (simp add: rngLen_def rngTap_def)
  with assms(2) have "52 \<le> low6 (g !! (N + (k * rngLen + (rngLen - rngTap))))"
    by blast
  then have b: "52 \<le> ?b" by (simp add: add.assoc)
  have "k * rngLen \<le> 12 * rngLen"
    using Suc.prems by simp
  with assms(2) have a52: "52 \<le> ?a" by blast
  have "N + Suc k * rngLen = N + k * rngLen + rngLen"
    by simp
  then have "g !! (N + Suc k * rngLen) = g !! (N + k * rngLen) + g !! (N + k * rngLen + (rngLen - rngTap))"
    using assms(1) [unfolded additive_def, rule_format, of "N + k * rngLen"]
    by (simp only:)
  then have "low6 (g !! (N + Suc k * rngLen)) = (?a + ?b) mod 64"
    by (simp add: low6_add)
  also have "\<dots> = ?a + ?b - 64"
    using a a52 b low6_less [of "g !! (N + k * rngLen + (rngLen - rngTap))"]
    by (simp add: mod_if)
  finally show ?case
    using a a52 b low6_less [of "g !! (N + k * rngLen + (rngLen - rngTap))"] by simp
qed

lemma additive_accepts:
  assumes "additive g"
  shows "\<exists>j \<le> 12 * rngLen. low6 (g !! (N + j)) < 52"
proof (rule ccontr)
  assume "\<not> (\<exists>j \<le> 12 * rngLen. low6 (g !! (N + j)) < 52)"
  then have stuck: "\<forall>j \<le> 12 * rngLen. 52 \<le> low6 (g !! (N + j))"
    by (simp add: not_less)
  from additive_descent [OF assms stuck, of 12]
  have "low6 (g !! (N + 12 * rngLen)) \<le> 51" by simp
  moreover from stuck have "52 \<le> low6 (g !! (N + 12 * rngLen))" by blast
  ultimately show False by simp
qed

lemma sixbits_sdrop:
  "sixbits g =
    concat (map (\<lambda>w. chunks (uint (take_bit 63 w)) (nat letterIdxMax)) (stake d g)) @-
      sixbits (sdrop d g)"
proof (induction d arbitrary: g)
  case 0
  show ?case by simp
next
  case (Suc d)
  have "sixbits g = chunks (uint (take_bit 63 (shd g))) (nat letterIdxMax) @- sixbits (stl g)"
    using sixbits_unfold [of g] by (simp add: Int63_def)
  also have "sixbits (stl g) =
      concat (map (\<lambda>w. chunks (uint (take_bit 63 w)) (nat letterIdxMax)) (stake d (stl g))) @-
        sixbits (sdrop d (stl g))"
    by (rule Suc.IH)
  finally show ?case by (simp add: shift_append)
qed

lemma accepted_draw:
  assumes "low6 w < 52"
  shows "\<exists>v \<in> set (chunks (uint (take_bit 63 w)) (nat letterIdxMax)). accepted v"
proof -
  have "nat letterIdxMax = Suc 9"
    by (simp add: letterIdxMax_eq)
  then have "chunks (uint (take_bit 63 w)) (nat letterIdxMax) =
      int (low6 w) # chunks (drop_bit letterIdxBits (uint (take_bit 63 w))) 9"
    by (simp only: chunks_Suc first_chunk)
  then have "int (low6 w) \<in> set (chunks (uint (take_bit 63 w)) (nat letterIdxMax))"
    by simp
  moreover have "accepted (int (low6 w))"
    using assms by (simp add: accepted_iff)
  ultimately show ?thesis ..
qed

lemma additive_enough:
  "additive g \<Longrightarrow> \<exists>k. n \<le> length (filter accepted (stake k (sixbits g)))"
proof (induction n arbitrary: g)
  case 0
  show ?case by simp
next
  case (Suc n)
  from additive_accepts [OF Suc.prems, of 0] obtain j where j: "low6 (g !! j) < 52"
    by auto
  define pre where
    "pre = concat (map (\<lambda>w. chunks (uint (take_bit 63 w)) (nat letterIdxMax)) (stake (Suc j) g))"
  have "g !! j \<in> set (stake (Suc j) g)"
    using stake_nth [of j "Suc j" g] nth_mem [of j "stake (Suc j) g"] by simp
  with accepted_draw [OF j] obtain v where "v \<in> set pre" "accepted v"
    unfolding pre_def by (auto simp del: stake.simps)
  then have "v \<in> set (filter accepted pre)"
    by simp
  then have "0 < length (filter accepted pre)"
    by (rule length_pos_if_in_set)
  then have one: "1 \<le> length (filter accepted pre)"
    by linarith
  from Suc.IH [OF additive_sdrop [OF Suc.prems, of "Suc j"]] obtain k where
    k: "n \<le> length (filter accepted (stake k (sixbits (sdrop (Suc j) g))))" ..
  have "sixbits g = pre @- sixbits (sdrop (Suc j) g)"
    unfolding pre_def by (rule sixbits_sdrop)
  then have "stake (length pre + k) (sixbits g) = pre @ stake k (sixbits (sdrop (Suc j) g))"
    by (simp add: stake_shift del: sdrop.simps)
  with one k have "Suc n \<le> length (filter accepted (stake (length pre + k) (sixbits g)))"
    by (simp del: sdrop.simps)
  then show ?case ..
qed

subsection \<open>Length and alphabet of a token\<close>

lemma rngSource_enough:
  assumes "length vec = rngLen"
  shows "\<exists>k. n \<le> length (filter accepted (stake k (sixbits (rngSource vec))))"
  by (rule additive_enough [OF rngSource_additive [OF assms]])

text \<open>
  Claim C5, amended. For every \<open>n\<close> from 1 up to the allocation limit of \<open>make\<close> and
  every stream of the random source (every register of the generator), the generator
  returns a string of length exactly \<open>n\<close>: position \<open>n - 1 - j\<close> of the buffer holds
  the letter of the \<open>j\<close>-th accepted value, so every position is written by one
  accepted value, and all its characters are letters of \<open>[a-zA-Z]\<close>, hence of
  \<open>[a-zA-Z0-9]\<close>.
\<close>

theorem RandString_length_alphabet:
  assumes "1 \<le> n" and "n \<le> maxAlloc" and "length vec = rngLen"
  shows "\<exists>s g' k. RandStringBytesMaskImpr n (rngSource vec) = Some (Inr s, g') \<and>
     s = rev (map letter (take (nat n) (filter accepted (stake k (sixbits (rngSource vec)))))) \<and>
     int (length s) = n \<and> set s \<subseteq> ascii_letters \<and> set s \<subseteq> alnum"
proof -
  from rngSource_enough [OF assms(3), of "nat n"] obtain k where
    enough: "nat n \<le> length (filter accepted (stake k (sixbits (rngSource vec))))" ..
  let ?s = "rev (map letter (take (nat n) (filter accepted (stake k (sixbits (rngSource vec))))))"
  from assms(1,2) enough obtain g' where
    "RandStringBytesMaskImpr n (rngSource vec) = Some (Inr ?s, g')"
    using RandString_spec [of n k "rngSource vec"] by auto
  moreover have "int (length ?s) = n"
    using assms(1) enough by simp
  moreover have "set ?s \<subseteq> ascii_letters"
    using accepted_letters [of "nat n" k "rngSource vec"] by (simp add: set_letterBytes)
  ultimately show ?thesis
    by (auto simp add: alnum_def)
qed

lemma stake_ones:
  "stake 10 (sixbits (rngSource ones)) = [1, 0, 0, 0, 0, 0, 0, 0, 0, 0]"
  by (simp add: stake_sixbits chunks_10 Int63_def ones_def rngLen_def)

theorem RandString_length_alphabet_witness:
  "(1::int) \<le> 2 \<and> (2::int) \<le> maxAlloc \<and> length ones = rngLen \<and>
   (\<exists>s g'. RandStringBytesMaskImpr 2 (rngSource ones) = Some (Inr s, g') \<and>
      s = ''ab'' \<and> int (length s) = 2 \<and> set s \<subseteq> ascii_letters \<and> set s \<subseteq> alnum)"
proof -
  have n: "(1::int) \<le> 2" and m: "(2::int) \<le> maxAlloc" and l: "length ones = rngLen"
    by (simp_all add: maxAlloc_def ones_def)
  from RandString_length_alphabet [OF n m l] obtain s g' where
    run: "RandStringBytesMaskImpr 2 (rngSource ones) = Some (Inr s, g')" and
    props: "int (length s) = 2" "set s \<subseteq> ascii_letters" "set s \<subseteq> alnum"
    by blast
  have "nat 2 \<le> length (filter accepted (stake 10 (sixbits (rngSource ones))))"
    by (simp add: stake_ones accepted_iff)
  from RandString_spec [OF _ m this] obtain g'' where
    "RandStringBytesMaskImpr 2 (rngSource ones) = Some (Inr ''ab'', g'')"
    by (auto simp add: stake_ones accepted_iff letter_def letterBytes_def)
  with run have "s = ''ab''" by simp
  with run props n m l show ?thesis by blast
qed

text \<open>
  A length beyond the allocation limit is an integer \<open>n \<ge> 1\<close> for which the generator
  returns no string: \<open>make\<close> panics.
\<close>

theorem RandString_huge_length_counterexample:
  "(1::int) \<le> 2 ^ 62 \<and>
   RandStringBytesMaskImpr (2 ^ 62) (rngSource ones) =
     Some (Inl (Panic ''makeslice: len out of range''), rngSource ones)"
  by (simp add: RandStringBytesMaskImpr_def maxAlloc_def)

subsection \<open>Rejected values and selected letters\<close>

lemma stake_witness:
  "stake 10 (sixbits (sconst 7336052)) = [52, 1, 63, 27, 0, 0, 0, 0, 0, 0]"
  by (simp add: stake_sixbits chunks_10 Int63_def)

lemma accepted_witness:
  "filter accepted (stake 10 (sixbits (sconst 7336052))) = [1, 27, 0, 0, 0, 0, 0, 0]"
  by (simp add: stake_witness accepted_iff)

lemma ascii_letters_digits: "ascii_letters \<inter> ascii_digits = {}"
  by (simp add: ascii_letters_def ascii_digits_def)

text \<open>
  Claim C1, amended. Every 6-bit value the loop extracts lies in \<open>0..63\<close> and is
  rejected if and only if it is 52 or more; for a length \<open>n\<close> that \<open>make\<close> accepts,
  the token is made of the letters of the first \<open>n\<close> accepted values, the rejected
  ones being skipped. The accepted values \<open>0..51\<close> select the 52 distinct letters of
  \<open>[a-zA-Z]\<close>, one each, and no digit.
\<close>

theorem RandString_rejects_above_alphabet:
  "(\<forall>v \<in> sset (sixbits g). 0 \<le> v \<and> v < 64 \<and> (accepted v \<longleftrightarrow> v < 52)) \<and>
   (\<forall>n k. 0 \<le> n \<and> n \<le> maxAlloc \<and>
        nat n \<le> length (filter accepted (stake k (sixbits g))) \<longrightarrow>
      (\<exists>g'. RandStringBytesMaskImpr n g =
         Some (Inr (rev (map letter (take (nat n) (filter accepted (stake k (sixbits g)))))), g'))) \<and>
   inj_on letter {0..<52} \<and> letter ` {0..<52} = ascii_letters \<and>
   card ascii_letters = 52 \<and> ascii_letters \<inter> ascii_digits = {}"
proof (intro conjI ballI allI impI)
  fix v
  assume "v \<in> sset (sixbits g)"
  then show "0 \<le> v" "v < 64"
    using sixbits_range [of v g] by simp_all
  show "accepted v \<longleftrightarrow> v < 52"
    by (rule accepted_iff)
next
  fix n k
  assume "0 \<le> n \<and> n \<le> maxAlloc \<and>
      nat n \<le> length (filter accepted (stake k (sixbits g)))"
  then show "\<exists>g'. RandStringBytesMaskImpr n g =
      Some (Inr (rev (map letter (take (nat n) (filter accepted (stake k (sixbits g)))))), g')"
    using RandString_spec [of n k g] by simp
next
  show "inj_on letter {0..<52}"
    by (rule letter_inj)
  show "letter ` {0..<52} = ascii_letters"
    by (simp add: letter_image set_letterBytes)
  have "card (letter ` {0..<52}) = card {0..<52::int}"
    by (rule card_image [OF letter_inj])
  then show "card ascii_letters = 52"
    by (simp add: letter_image set_letterBytes)
  show "ascii_letters \<inter> ascii_digits = {}"
    by (rule ascii_letters_digits)
qed

theorem RandString_rejects_above_alphabet_witness:
  "52 \<in> sset (sixbits (sconst 7336052)) \<and> \<not> accepted 52 \<and> (0::int) \<le> 2 \<and>
   (2::int) \<le> maxAlloc \<and>
   nat 2 \<le> length (filter accepted (stake 10 (sixbits (sconst 7336052)))) \<and>
   (\<exists>g'. RandStringBytesMaskImpr 2 (sconst 7336052) = Some (Inr ''Bb'', g'))"
proof -
  note inst = RandString_rejects_above_alphabet [of "sconst 7336052"]
  have "52 \<in> set (stake 10 (sixbits (sconst 7336052)))"
    by (simp add: stake_witness)
  then have mem: "52 \<in> sset (sixbits (sconst 7336052))"
    using set_stake_subset [of 10 "sixbits (sconst 7336052)"] by auto
  with inst have "\<not> accepted 52" by auto
  moreover have pre: "(0::int) \<le> 2 \<and> (2::int) \<le> maxAlloc \<and>
      nat 2 \<le> length (filter accepted (stake 10 (sixbits (sconst 7336052))))"
    by (simp add: accepted_witness maxAlloc_def)
  moreover from inst pre have "\<exists>g'. RandStringBytesMaskImpr 2 (sconst 7336052) =
      Some (Inr (rev (map letter (take (nat 2)
        (filter accepted (stake 10 (sixbits (sconst 7336052))))))), g')"
    by blast
  then have "\<exists>g'. RandStringBytesMaskImpr 2 (sconst 7336052) = Some (Inr ''Bb'', g')"
    by (simp add: accepted_witness letter_def letterBytes_def)
  ultimately show ?thesis using mem by simp
qed

text \<open>
  The value 52 is neither 62 nor 63 and is rejected: on a source whose first values are
  52 and 0 the token of length 1 is the letter of 0.
\<close>

theorem RandString_rejects_52_counterexample:
  "stake 2 (sixbits (sconst 52)) = [52, 0] \<and>
   RandStringBytesMaskImpr 1 (sconst 52) = Some (Inr ''a'', sconst 52) \<and>
   \<not> accepted 52 \<and> (52::int) \<noteq> 62 \<and> (52::int) \<noteq> 63"
proof -
  have "stake 2 (sixbits (sconst 52)) = [52, 0]"
    by (simp add: stake_sixbits chunks_10 Int63_def)
  moreover have "RandStringBytesMaskImpr 1 (sconst 52) = Some (Inr ''a'', sconst 52)"
    by (simp add: RandStringBytesMaskImpr_def maxAlloc_def Int63_def
        RandStringBytesMaskImpr_loop.simps letterIdxMax_def letterIdxMask_def letterIdxBits_def
        letterBytes_def)
  ultimately show ?thesis
    by (simp add: accepted_iff)
qed

section \<open>The collaborators\<close>

lemma ConfirmUser_calls:
  "snd (ConfirmUser tok st) = st\<lparr>calls := calls st @ [CallConfirmUser tok]\<rparr>"
  by (simp add: ConfirmUser_def Let_def split: option.splits prod.splits)

lemma ConfirmUser_found:
  "fst (ConfirmUser tok st) = Inr u \<longleftrightarrow>
     lookup_fault st = None \<and> (\<exists>k. find (has_token tok) (accounts st) = Some (k, u))"
  by (auto simp add: ConfirmUser_def Let_def split: option.splits prod.splits)

lemma ConfirmUser_not_found:
  "lookup_fault st = None \<Longrightarrow> find (has_token tok) (accounts st) = None \<Longrightarrow>
   fst (ConfirmUser tok st) = Inl ErrUserNotFound"
  by (simp add: ConfirmUser_def Let_def)

lemma SaveUser_frame:
  "User (snd (SaveUser c ctx)) = User ctx"
  "SessionStorer (snd (SaveUser c ctx)) = SessionStorer ctx"
  "LogWriter (snd (SaveUser c ctx)) = LogWriter ctx"
  "Mailer (snd (SaveUser c ctx)) = Mailer ctx"
  "Outbox (snd (SaveUser c ctx)) = Outbox ctx"
  "Detached (snd (SaveUser c ctx)) = Detached ctx"
  "Response (snd (SaveUser c ctx)) = Response ctx"
  by (simp_all add: SaveUser_def Let_def split_beta split: option.splits sum.splits)

lemma SaveUser_ok:
  "fst (SaveUser c ctx) = None \<longleftrightarrow>
     (\<exists>u key. User ctx = Some u \<and> u (PrimaryID c) = Some (VString key)) \<and>
     put_fault (Storer ctx) = None"
  by (auto simp add: SaveUser_def StringErr_def Put_def Let_def split_beta
      split: option.splits sum.splits val.splits)

lemma SaveUser_store:
  assumes "User ctx = Some u" and "u (PrimaryID c) = Some (VString key)"
    and "put_fault (Storer ctx) = None"
  shows "SaveUser c ctx =
    (None, ctx\<lparr>Storer := (Storer ctx)\<lparr>calls := calls (Storer ctx) @ [CallPut key],
       accounts := put_account key u (accounts (Storer ctx))\<rparr>\<rparr>)"
  using assms by (simp add: SaveUser_def StringErr_def Put_def Let_def)

lemma SaveUser_fault:
  assumes "User ctx = Some u" and "u (PrimaryID c) = Some (VString key)"
    and "put_fault (Storer ctx) = Some e"
  shows "SaveUser c ctx =
    (Some e, ctx\<lparr>Storer := (Storer ctx)\<lparr>calls := calls (Storer ctx) @ [CallPut key]\<rparr>\<rparr>)"
  using assms by (simp add: SaveUser_def StringErr_def Put_def Let_def)

lemma put_account_member: "(key, attr) \<in> set (put_account key attr as)"
  by (force simp add: put_account_def image_iff)

section \<open>The gate\<close>

text \<open>
  Claim C8. The gate returns no interrupt and no error when the \<open>confirmed\<close> field of
  the account holds true, the not-confirmed interrupt when it holds false, and the
  field-access error with no interrupt when the field holds no boolean (no account, no
  field, or a value of another type).
\<close>

theorem beforeGet_gate:
  "((\<exists>u. User ctx = Some u \<and> u StoreConfirmed = Some (VBool True)) \<longrightarrow>
      beforeGet c ctx = (InterruptNone, None)) \<and>
   ((\<exists>u. User ctx = Some u \<and> u StoreConfirmed = Some (VBool False)) \<longrightarrow>
      beforeGet c ctx = (InterruptAccountNotConfirmed, None)) \<and>
   ((\<forall>u b. User ctx = Some u \<longrightarrow> u StoreConfirmed \<noteq> Some (VBool b)) \<longrightarrow>
      beforeGet c ctx = (InterruptNone, Some (AttributeErr StoreConfirmed)))"
  by (auto simp add: beforeGet_def BoolErr_def split: option.splits val.splits)

theorem beforeGet_gate_witness:
  "User (ctx0\<lparr>User := Some (alice(StoreConfirmed \<mapsto> VBool True))\<rparr>) =
      Some (alice(StoreConfirmed \<mapsto> VBool True)) \<and>
   (alice(StoreConfirmed \<mapsto> VBool True)) StoreConfirmed = Some (VBool True) \<and>
   beforeGet cfg0 (ctx0\<lparr>User := Some (alice(StoreConfirmed \<mapsto> VBool True))\<rparr>) =
      (InterruptNone, None) \<and>
   User ctx0 = Some alice \<and> alice StoreConfirmed = Some (VBool False) \<and>
   beforeGet cfg0 ctx0 = (InterruptAccountNotConfirmed, None) \<and>
   User (ctx0\<lparr>User := Some (alice(StoreConfirmed \<mapsto> VString ''yes''))\<rparr>) =
      Some (alice(StoreConfirmed \<mapsto> VString ''yes'')) \<and>
   beforeGet cfg0 (ctx0\<lparr>User := Some (alice(StoreConfirmed \<mapsto> VString ''yes''))\<rparr>) =
      (InterruptNone, Some (AttributeErr StoreConfirmed))"
proof -
  have a: "alice StoreConfirmed = Some (VBool False)"
    by (simp add: alice_def StoreConfirmed_def)
  have u: "User ctx0 = Some alice"
    by (simp add: ctx0_def)
  show ?thesis
    using beforeGet_gate [of "ctx0\<lparr>User := Some (alice(StoreConfirmed \<mapsto> VBool True))\<rparr>" cfg0]
      beforeGet_gate [of ctx0 cfg0]
      beforeGet_gate [of "ctx0\<lparr>User := Some (alice(StoreConfirmed \<mapsto> VString ''yes''))\<rparr>" cfg0]
    by (simp add: a u)
qed

section \<open>The confirmation handler\<close>

text \<open>
  Claim C7. With an empty token parameter the handler fails with the client-data error
  that names the parameter \<open>cnf\<close> and leaves the whole context as it was: the backend is
  asked for nothing (no lookup, no save) and keeps its accounts.
\<close>

theorem confirmHandler_empty_token:
  "confirmHandler c ctx '''' = (Some (ClientDataErr ''cnf''), ctx) \<and>
   calls (Storer (snd (confirmHandler c ctx ''''))) = calls (Storer ctx) \<and>
   accounts (Storer (snd (confirmHandler c ctx ''''))) = accounts (Storer ctx)"
  by (simp add: confirmHandler_def FormValueConfirm_def)

lemma confirmHandler_found:
  assumes "token \<noteq> []" and "fst (ConfirmUser (ToUpper token) (Storer ctx)) = Inr u"
  shows "confirmHandler c ctx token =
    (let u2 = u(StoreConfirmToken \<mapsto> VString '''', StoreConfirmed \<mapsto> VBool True);
         ctx2 = ctx\<lparr>Storer := snd (ConfirmUser (ToUpper token) (Storer ctx)), User := Some u2\<rparr>;
         ctx3 = snd (SaveUser c ctx2)
     in case fst (SaveUser c ctx2) of
          Some err \<Rightarrow> (Some err, ctx3)
        | None \<Rightarrow>
            (if AllowInsecureLoginAfterConfirm c
             then (case StringErr (User ctx3) (PrimaryID c) of
                     Inl err \<Rightarrow> (Some err, ctx3)
                   | Inr key \<Rightarrow>
                       (None, ctx3\<lparr>SessionStorer := (SessionStorer ctx3)(SessionKey \<mapsto> key),
                          Response := Some (Redirect (RegisterOKPath c)
                            ''You have successfully confirmed your account.'' '''' True)\<rparr>))
             else (None, ctx3\<lparr>Response := Some (Redirect (RegisterOKPath c)
                            ''You have successfully confirmed your account.'' '''' True)\<rparr>)))"
  using assms
  by (simp add: confirmHandler_def Unbind_def Let_def split_beta
      split: option.splits sum.splits)

lemma confirmHandler_sets_fields:
  assumes "token \<noteq> []" and "fst (ConfirmUser (ToUpper token) (Storer ctx)) = Inr u"
  shows "User (snd (confirmHandler c ctx token)) =
    Some (u(StoreConfirmToken \<mapsto> VString '''', StoreConfirmed \<mapsto> VBool True))"
  unfolding confirmHandler_found [OF assms]
  by (simp add: Let_def SaveUser_frame split: option.splits sum.splits)


lemma ToUpper_aaaaaa: "ToUpper ''aaaaaa'' = ''AAAAAA''"
  by code_simp

lemma confirm_fields_differ: "StoreConfirmToken \<noteq> StoreConfirmed"
  by (simp add: StoreConfirmToken_def StoreConfirmed_def)

lemma RandString_zeros: "RandStringBytesMaskImpr TokenLength zeros = Some (Inr ''aaaaaa'', zeros)"
  by (simp add: TokenLength_def zeros_def RandStringBytesMaskImpr_def maxAlloc_def Int63_def
      RandStringBytesMaskImpr_loop.simps letterIdxMax_def letterIdxMask_def letterIdxBits_def
      letterBytes_def)
    (simp add: eval_nat_numeral)

text \<open>
  Claim C2, amended. For every redemption in which the token parameter is not empty, the
  backend finds an account and the save succeeds (the backend accepts the write of the
  account under its primary identity key), the handler returns no error, has set
  \<open>confirmed\<close> to true and \<open>confirm_token\<close> to the empty string in the account, has
  stored that account, and has answered with a redirect to \<open>RegisterOKPath\<close>.
\<close>

theorem confirmHandler_redeems:
  assumes "token \<noteq> []"
    and "fst (ConfirmUser (ToUpper token) (Storer ctx)) = Inr u"
    and "put_fault (Storer ctx) = None"
    and "(u(StoreConfirmToken \<mapsto> VString '''', StoreConfirmed \<mapsto> VBool True)) (PrimaryID c) =
           Some (VString key)"
  shows "\<exists>ctx'. confirmHandler c ctx token = (None, ctx') \<and>
     User ctx' = Some (u(StoreConfirmToken \<mapsto> VString '''', StoreConfirmed \<mapsto> VBool True)) \<and>
     BoolErr (User ctx') StoreConfirmed = Inr True \<and>
     StringErr (User ctx') StoreConfirmToken = Inr '''' \<and>
     accounts (Storer ctx') =
       put_account key (u(StoreConfirmToken \<mapsto> VString '''', StoreConfirmed \<mapsto> VBool True))
         (accounts (Storer ctx)) \<and>
     (key, u(StoreConfirmToken \<mapsto> VString '''', StoreConfirmed \<mapsto> VBool True))
       \<in> set (accounts (Storer ctx')) \<and>
     calls (Storer ctx') = calls (Storer ctx) @ [CallConfirmUser (ToUpper token), CallPut key] \<and>
     Response ctx' = Some (Redirect (RegisterOKPath c)
       ''You have successfully confirmed your account.'' '''' True)"
proof -
  let ?u2 = "u(StoreConfirmToken \<mapsto> VString '''', StoreConfirmed \<mapsto> VBool True)"
  let ?ctx2 = "ctx\<lparr>Storer := snd (ConfirmUser (ToUpper token) (Storer ctx)), User := Some ?u2\<rparr>"
  have save: "SaveUser c ?ctx2 =
    (None, ?ctx2\<lparr>Storer := (Storer ?ctx2)\<lparr>calls := calls (Storer ?ctx2) @ [CallPut key],
       accounts := put_account key ?u2 (accounts (Storer ?ctx2))\<rparr>\<rparr>)"
    using assms(3,4) by (intro SaveUser_store) (simp_all add: ConfirmUser_calls)
  have key: "StringErr (Some ?u2) (PrimaryID c) = Inr key"
    using assms(4) by (simp add: StringErr_def)
  have b: "BoolErr (Some ?u2) StoreConfirmed = Inr True"
    by (simp add: BoolErr_def)
  have s: "StringErr (Some ?u2) StoreConfirmToken = Inr []"
    using confirm_fields_differ by (simp add: StringErr_def)
  show ?thesis
    unfolding confirmHandler_found [OF assms(1,2)] Let_def save
    by (cases "AllowInsecureLoginAfterConfirm c")
      (simp_all add: key b s ConfirmUser_calls put_account_member)
qed

lemma lookup_alice:
  "fst (ConfirmUser (ToUpper ''aaaaaa'') (Storer ctx_registered)) = Inr alice_registered"
  by (simp add: ToUpper_aaaaaa ConfirmUser_def ctx_registered_def ctx0_def store0_def
      has_token_def alice_registered_def StoreConfirmToken_def)

theorem confirmHandler_redeems_witness:
  "''aaaaaa'' \<noteq> [] \<and>
   fst (ConfirmUser (ToUpper ''aaaaaa'') (Storer ctx_registered)) = Inr alice_registered \<and>
   put_fault (Storer ctx_registered) = None \<and>
   (alice_registered(StoreConfirmToken \<mapsto> VString '''', StoreConfirmed \<mapsto> VBool True))
      (PrimaryID cfg0) = Some (VString ''alice@example.com'') \<and>
   (\<exists>ctx'. confirmHandler cfg0 ctx_registered ''aaaaaa'' = (None, ctx') \<and>
      BoolErr (User ctx') StoreConfirmed = Inr True \<and>
      StringErr (User ctx') StoreConfirmToken = Inr '''' \<and>
      Response ctx' = Some (Redirect ''/welcome''
        ''You have successfully confirmed your account.'' '''' True))"
proof -
  have t: "''aaaaaa'' \<noteq> []" by simp
  have f: "put_fault (Storer ctx_registered) = None"
    by (simp add: ctx_registered_def ctx0_def store0_def)
  have k: "(alice_registered(StoreConfirmToken \<mapsto> VString '''', StoreConfirmed \<mapsto> VBool True))
      (PrimaryID cfg0) = Some (VString ''alice@example.com'')"
    by (simp add: cfg0_def alice_registered_def alice_def StoreConfirmToken_def StoreConfirmed_def)
  have r: "RegisterOKPath cfg0 = ''/welcome''"
    by (simp add: cfg0_def)
  from confirmHandler_redeems [OF t lookup_alice f k] show ?thesis
    using t lookup_alice f k unfolding r by blast
qed

text \<open>
  When the backend finds the account and then refuses the write, the handler returns
  the backend's error: no redirect is written and the stored account keeps its token.
\<close>

theorem confirmHandler_save_fails_counterexample:
  "''aaaaaa'' \<noteq> [] \<and>
   fst (ConfirmUser (ToUpper ''aaaaaa'') (Storer ctx_read_only)) = Inr alice_registered \<and>
   fst (confirmHandler cfg0 ctx_read_only ''aaaaaa'') = Some (StorerErr ''read-only'') \<and>
   Response (snd (confirmHandler cfg0 ctx_read_only ''aaaaaa'')) = None \<and>
   accounts (Storer (snd (confirmHandler cfg0 ctx_read_only ''aaaaaa''))) =
     [(''alice@example.com'', alice_registered)]"
proof -
  have found: "fst (ConfirmUser (ToUpper ''aaaaaa'') (Storer ctx_read_only)) = Inr alice_registered"
    by (simp add: ToUpper_aaaaaa ConfirmUser_def ctx_read_only_def ctx0_def store0_def
        has_token_def alice_registered_def StoreConfirmToken_def)
  have t: "''aaaaaa'' \<noteq> []" by simp
  show ?thesis
    unfolding confirmHandler_found [OF t found, of cfg0]
    by (simp add: found Let_def)
      (simp add: SaveUser_def StringErr_def Put_def ConfirmUser_calls Let_def cfg0_def
        ctx_read_only_def ctx0_def store0_def alice_registered_def alice_def
        StoreConfirmToken_def StoreConfirmed_def)
qed

section \<open>The registration hook\<close>

lemma confirmEmail_frame:
  "User (confirmEmail c ctx to token) = User ctx"
  "Storer (confirmEmail c ctx to token) = Storer ctx"
  "SessionStorer (confirmEmail c ctx to token) = SessionStorer ctx"
  "Response (confirmEmail c ctx to token) = Response ctx"
  "Mailer (confirmEmail c ctx to token) = Mailer ctx"
  "Detached (confirmEmail c ctx to token) = Detached ctx"
  by (simp_all add: confirmEmail_def Let_def split: option.splits)

lemma confirmEmail_log:
  "LogWriter (confirmEmail c ctx to token) =
     LogWriter ctx @
       (case Mailer ctx
               \<lparr>To = [to], From = EmailFrom c, Subject = EmailSubjectPrefix c @ ''Confirm New Account''\<rparr>
               (ConfirmURL (RootURL c) [MountPath c, ''confirm''] FormValueConfirm token) of
          None \<Rightarrow> []
        | Some e \<Rightarrow> [(''confirm: Failed to send e-mail: %v'', e)])"
  by (simp add: confirmEmail_def Let_def split: option.splits)


lemma goConfirmEmail_frame:
  "User (goConfirmEmail c ctx to token) = User ctx"
  "Storer (goConfirmEmail c ctx to token) = Storer ctx"
  "SessionStorer (goConfirmEmail c ctx to token) = SessionStorer ctx"
  "Response (goConfirmEmail c ctx to token) = Response ctx"
  by (simp_all add: goConfirmEmail_def confirmEmail_frame)

lemma run_detached_frame:
  "User (run_detached c ts ctx) = User ctx \<and>
   Storer (run_detached c ts ctx) = Storer ctx \<and>
   SessionStorer (run_detached c ts ctx) = SessionStorer ctx \<and>
   Response (run_detached c ts ctx) = Response ctx"
  by (induction c ts ctx rule: run_detached.induct) (simp_all add: confirmEmail_frame)

lemma afterRegister_token:
  assumes "User ctx = Some u"
    and "RandStringBytesMaskImpr TokenLength g = Some (Inr token, g')"
  shows "afterRegister c ctx g =
    Some ((let ctx1 = ctx\<lparr>User := Some (u(StoreConfirmToken \<mapsto> VString (ToUpper token)))\<rparr>;
               ctx2 = snd (SaveUser c ctx1)
           in case fst (SaveUser c ctx1) of
                Some err \<Rightarrow> (Some err, ctx2)
              | None \<Rightarrow>
                  (case StringErr (User ctx2) StoreEmail of
                     Inl err \<Rightarrow> (Some err, ctx2)
                   | Inr email \<Rightarrow> (None, goConfirmEmail c ctx2 email token))), g')"
  using assms
  by (simp add: afterRegister_def Let_def split_beta split: option.splits sum.splits)

lemma afterRegister_user:
  assumes "afterRegister c ctx g = Some ((r, ctx'), g')" and "User ctx = Some u"
  shows "User ctx' = Some u \<or>
    (\<exists>token. RandStringBytesMaskImpr TokenLength g = Some (Inr token, g') \<and>
       User ctx' = Some (u(StoreConfirmToken \<mapsto> VString (ToUpper token))))"
proof (cases "RandStringBytesMaskImpr TokenLength g")
  case None
  with assms show ?thesis by (simp add: afterRegister_def)
next
  case (Some res)
  obtain out g1 where res: "res = (out, g1)" by (cases res)
  show ?thesis
  proof (cases out)
    case (Inl e)
    with assms Some res show ?thesis by (auto simp add: afterRegister_def)
  next
    case (Inr token)
    with Some res have gen: "RandStringBytesMaskImpr TokenLength g = Some (Inr token, g1)" by simp
    from assms(1) have "g1 = g'" and "User ctx' = Some (u(StoreConfirmToken \<mapsto> VString (ToUpper token)))"
      unfolding afterRegister_token [OF assms(2) gen]
      by (auto simp add: Let_def SaveUser_frame goConfirmEmail_frame split: option.splits sum.splits)
    with gen show ?thesis by auto
  qed
qed

text \<open>
  Claim C9. Whatever the mailer answers, once the token is persisted and the e-mail
  field is read the hook returns no error. The mailer's error only adds a line to the
  log sink: the account, the backend, the session and the response are those left by the
  save, also after the tasks started with \<open>go\<close> have run.
\<close>

theorem afterRegister_swallows_mail_failure:
  assumes "User ctx = Some u"
    and "RandStringBytesMaskImpr TokenLength g = Some (Inr token, g')"
    and "fst (SaveUser c (ctx\<lparr>User := Some (u(StoreConfirmToken \<mapsto> VString (ToUpper token)))\<rparr>)) = None"
    and "u StoreEmail = Some (VString addr)"
  shows "\<exists>ctx'. afterRegister c (ctx\<lparr>Mailer := m\<rparr>) g = Some ((None, ctx'), g') \<and>
     User ctx' = Some (u(StoreConfirmToken \<mapsto> VString (ToUpper token))) \<and>
     Storer ctx' =
       Storer (snd (SaveUser c (ctx\<lparr>User := Some (u(StoreConfirmToken \<mapsto> VString (ToUpper token)))\<rparr>))) \<and>
     SessionStorer ctx' = SessionStorer ctx \<and> Response ctx' = Response ctx \<and>
     LogWriter ctx' = LogWriter ctx @
       (if MailMaker c
        then (case m \<lparr>To = [addr], From = EmailFrom c,
                        Subject = EmailSubjectPrefix c @ ''Confirm New Account''\<rparr>
                      (ConfirmURL (RootURL c) [MountPath c, ''confirm''] FormValueConfirm token) of
                None \<Rightarrow> []
              | Some e \<Rightarrow> [(''confirm: Failed to send e-mail: %v'', e)])
        else []) \<and>
     User (run_detached c (Detached ctx') ctx') = User ctx' \<and>
     Storer (run_detached c (Detached ctx') ctx') = Storer ctx' \<and>
     SessionStorer (run_detached c (Detached ctx') ctx') = SessionStorer ctx' \<and>
     Response (run_detached c (Detached ctx') ctx') = Response ctx'"
proof -
  let ?u1 = "u(StoreConfirmToken \<mapsto> VString (ToUpper token))"
  let ?ctx1 = "ctx\<lparr>Mailer := m, User := Some ?u1\<rparr>"
  have user: "User (ctx\<lparr>Mailer := m\<rparr>) = Some u"
    using assms(1) by simp
  have ok: "fst (SaveUser c ?ctx1) = None"
    using assms(3) by (simp add: SaveUser_ok)
  have st: "Storer (snd (SaveUser c ?ctx1)) =
      Storer (snd (SaveUser c (ctx\<lparr>User := Some ?u1\<rparr>)))"
    by (simp add: SaveUser_def Let_def split_beta split: option.splits sum.splits)
  have "StoreEmail \<noteq> StoreConfirmToken"
    by (simp add: StoreEmail_def StoreConfirmToken_def)
  with assms(4) have email: "StringErr (Some ?u1) StoreEmail = Inr addr"
    by (simp add: StringErr_def)
  define ctx2 where "ctx2 = snd (SaveUser c ?ctx1)"
  have run: "afterRegister c (ctx\<lparr>Mailer := m\<rparr>) g =
      Some ((None, goConfirmEmail c ctx2 addr token), g')"
    unfolding afterRegister_token [OF user assms(2)] Let_def
    by (simp add: ok email SaveUser_frame ctx2_def)
  have frame2: "User ctx2 = Some ?u1" "SessionStorer ctx2 = SessionStorer ctx"
    "Response ctx2 = Response ctx" "LogWriter ctx2 = LogWriter ctx" "Mailer ctx2 = m"
    by (simp_all add: ctx2_def SaveUser_frame)
  have log: "LogWriter (goConfirmEmail c ctx2 addr token) = LogWriter ctx @
       (if MailMaker c
        then (case m \<lparr>To = [addr], From = EmailFrom c,
                        Subject = EmailSubjectPrefix c @ ''Confirm New Account''\<rparr>
                      (ConfirmURL (RootURL c) [MountPath c, ''confirm''] FormValueConfirm token) of
                None \<Rightarrow> []
              | Some e \<Rightarrow> [(''confirm: Failed to send e-mail: %v'', e)])
        else [])"
    by (simp add: goConfirmEmail_def confirmEmail_log frame2)
  show ?thesis
    unfolding run
    by (simp add: goConfirmEmail_frame frame2 log run_detached_frame)
      (simp add: ctx2_def st)
qed

lemma register_alice:
  "afterRegister cfg0 ctx0 zeros = Some ((None, ctx_registered), zeros)"
  by (simp add: afterRegister_def ctx0_def RandString_zeros ToUpper_aaaaaa SaveUser_def cfg0_def
      alice_def StringErr_def Put_def put_account_def store0_def Let_def StoreConfirmToken_def
      StoreEmail_def goConfirmEmail_def confirmEmail_def FormValueConfirm_def ctx_registered_def
      alice_registered_def)

theorem afterRegister_swallows_mail_failure_witness:
  "User ctx0 = Some alice \<and>
   RandStringBytesMaskImpr TokenLength zeros = Some (Inr ''aaaaaa'', zeros) \<and>
   fst (SaveUser cfg0 (ctx0\<lparr>User := Some (alice(StoreConfirmToken \<mapsto> VString (ToUpper ''aaaaaa'')))\<rparr>))
     = None \<and>
   alice StoreEmail = Some (VString ''alice@example.com'') \<and>
   (\<exists>ctx'. afterRegister cfg0 (ctx0\<lparr>Mailer := (\<lambda>m u. Some (MailErr ''timeout''))\<rparr>) zeros =
        Some ((None, ctx'), zeros) \<and>
      LogWriter ctx' = [(''confirm: Failed to send e-mail: %v'', MailErr ''timeout'')])"
proof -
  have u: "User ctx0 = Some alice"
    by (simp add: ctx0_def)
  have s: "fst (SaveUser cfg0
      (ctx0\<lparr>User := Some (alice(StoreConfirmToken \<mapsto> VString (ToUpper ''aaaaaa'')))\<rparr>)) = None"
    by (simp add: SaveUser_ok) (simp add: cfg0_def alice_def ctx0_def store0_def StoreConfirmToken_def)
  have e: "alice StoreEmail = Some (VString ''alice@example.com'')"
    by (simp add: alice_def StoreEmail_def)
  have l: "LogWriter ctx0 = []" and m: "MailMaker cfg0"
    by (simp_all add: ctx0_def cfg0_def)
  from afterRegister_swallows_mail_failure
    [OF u RandString_zeros s e, of "\<lambda>m u. Some (MailErr ''timeout'')"]
  show ?thesis
    using u RandString_zeros s e by (auto simp add: l m)
qed

text \<open>
  Claim C10. Whenever the hook returns, with or without an error, the account in the
  context differs from the account it was given at most in the field
  \<open>confirm_token\<close>: \<open>confirmed\<close> and \<open>email\<close> are as before, and so is the primary
  identity key (a field other than \<open>confirm_token\<close>). The hook never writes
  \<open>confirmed\<close>. The tasks started with \<open>go\<close> do not write the account either.
\<close>

theorem afterRegister_writes_token_only:
  assumes "afterRegister c ctx g = Some ((r, ctx'), g')" and "User ctx = Some u"
  shows "\<exists>u'. User ctx' = Some u' \<and>
     (\<forall>k. k \<noteq> StoreConfirmToken \<longrightarrow> u' k = u k) \<and>
     u' StoreConfirmed = u StoreConfirmed \<and>
     u' StoreEmail = u StoreEmail \<and>
     (PrimaryID c \<noteq> StoreConfirmToken \<longrightarrow> u' (PrimaryID c) = u (PrimaryID c)) \<and>
     User (run_detached c (Detached ctx') ctx') = Some u'"
proof -
  have neq: "StoreConfirmed \<noteq> StoreConfirmToken" "StoreEmail \<noteq> StoreConfirmToken"
    by (simp_all add: StoreConfirmed_def StoreEmail_def StoreConfirmToken_def)
  from afterRegister_user [OF assms] show ?thesis
  proof
    assume "User ctx' = Some u"
    then show ?thesis by (simp add: run_detached_frame)
  next
    assume "\<exists>token. RandStringBytesMaskImpr TokenLength g = Some (Inr token, g') \<and>
       User ctx' = Some (u(StoreConfirmToken \<mapsto> VString (ToUpper token)))"
    then show ?thesis using neq by (auto simp add: run_detached_frame)
  qed
qed

theorem afterRegister_writes_token_only_witness:
  "afterRegister cfg0 ctx0 zeros = Some ((None, ctx_registered), zeros) \<and>
   User ctx0 = Some alice \<and>
   (\<exists>u'. User ctx_registered = Some u' \<and>
      u' StoreConfirmed = Some (VBool False) \<and>
      u' StoreEmail = Some (VString ''alice@example.com'') \<and>
      u' (PrimaryID cfg0) = Some (VString ''alice@example.com'') \<and>
      u' StoreConfirmToken = Some (VString ''AAAAAA''))"
proof -
  have u: "User ctx0 = Some alice"
    by (simp add: ctx0_def)
  have a: "alice StoreConfirmed = Some (VBool False)"
    "alice StoreEmail = Some (VString ''alice@example.com'')"
    "alice (PrimaryID cfg0) = Some (VString ''alice@example.com'')"
    "PrimaryID cfg0 \<noteq> StoreConfirmToken"
    by (simp_all add: alice_def cfg0_def StoreConfirmed_def StoreEmail_def StoreConfirmToken_def)
  have t: "User ctx_registered = Some alice_registered"
    "alice_registered StoreConfirmToken = Some (VString ''AAAAAA'')"
    by (simp_all add: ctx_registered_def alice_registered_def StoreConfirmToken_def)
  from afterRegister_writes_token_only [OF register_alice u]
  show ?thesis
    using register_alice u a t by auto
qed

section \<open>The confirmation state of an account\<close>

lemma hook_keeps_invariant:
  assumes "afterRegister c ctx g = Some ((r, ctx'), g')" and "User ctx = Some u"
    and "User ctx' = Some u'" and "u StoreConfirmed \<noteq> Some (VBool True)"
  shows "account_invariant u'"
proof -
  have "StoreConfirmed \<noteq> StoreConfirmToken"
    using confirm_fields_differ by simp
  with afterRegister_user [OF assms(1,2)] assms(3)
  have "u' StoreConfirmed = u StoreConfirmed" by auto
  with assms(4) show ?thesis by (simp add: account_invariant_def)
qed

lemma handler_sets_invariant:
  assumes "token \<noteq> []" and "fst (ConfirmUser (ToUpper token) (Storer ctx)) = Inr u"
    and "confirmHandler c ctx token = (r, ctx')" and "User ctx' = Some u'"
  shows "account_invariant u'"
proof -
  from confirmHandler_sets_fields [OF assms(1,2), of c] assms(3,4)
  have "u' = u(StoreConfirmToken \<mapsto> VString '''', StoreConfirmed \<mapsto> VBool True)" by simp
  then show ?thesis
    using confirm_fields_differ by (simp add: account_invariant_def)
qed

text \<open>
  Claim C3. The invariant holds in every account state reachable from a fresh account
  under the hook and the handler: the hook, run after a registration on an account that
  is not confirmed, sets the token and leaves \<open>confirmed\<close> as it is, and the handler
  clears the token and sets \<open>confirmed\<close> in one step.
\<close>

theorem lifecycle_invariant:
  "lifecycle u \<Longrightarrow> account_invariant u"
proof (induction rule: lifecycle.induct)
  case (fresh u)
  then show ?case by (simp add: fresh_account_def account_invariant_def)
next
  case (hook u ctx c g r ctx' g' u')
  then show ?case using hook_keeps_invariant by blast
next
  case (redeem u token ctx c r ctx' u')
  then show ?case using handler_sets_invariant by blast
qed

lemma alice_fresh: "fresh_account alice"
  by (simp add: fresh_account_def alice_def StoreConfirmed_def StoreConfirmToken_def)

lemma alice_confirmed_eq:
  "alice_registered(StoreConfirmToken \<mapsto> VString '''', StoreConfirmed \<mapsto> VBool True) =
    alice_confirmed"
  by (simp add: alice_confirmed_def StoreConfirmToken_def StoreConfirmed_def)

lemma redeem_alice:
  "User (snd (confirmHandler cfg0 ctx_registered ''aaaaaa'')) = Some alice_confirmed"
  using confirmHandler_sets_fields [OF _ lookup_alice, of cfg0]
  by (simp add: alice_confirmed_eq)

theorem lifecycle_invariant_witness:
  "lifecycle alice_confirmed \<and> account_invariant alice_confirmed \<and>
   alice_confirmed StoreConfirmed = Some (VBool True) \<and>
   alice_confirmed StoreConfirmToken = Some (VString '''')"
proof -
  have a: "lifecycle alice"
    by (rule lifecycle.fresh) (rule alice_fresh)
  have n: "alice StoreConfirmed \<noteq> Some (VBool True)"
    by (simp add: alice_def StoreConfirmed_def)
  have u: "User ctx0 = Some alice" and u': "User ctx_registered = Some alice_registered"
    by (simp_all add: ctx0_def ctx_registered_def)
  have b: "lifecycle alice_registered"
    by (rule lifecycle.hook [OF a n u register_alice u'])
  have t: "''aaaaaa'' \<noteq> []" by simp
  have h: "confirmHandler cfg0 ctx_registered ''aaaaaa'' =
      (fst (confirmHandler cfg0 ctx_registered ''aaaaaa''),
       snd (confirmHandler cfg0 ctx_registered ''aaaaaa''))"
    by simp
  have l: "lifecycle alice_confirmed"
    by (rule lifecycle.redeem [OF b t lookup_alice h redeem_alice])
  from lifecycle_invariant [OF l] l show ?thesis
    by (simp add: alice_confirmed_def StoreConfirmed_def StoreConfirmToken_def)
qed

section \<open>Single use of a token\<close>

lemma ToUpper_empty: "ToUpper token = [] \<longleftrightarrow> token = []"
  by (simp add: ToUpper_def)

lemma confirmHandler_ok_cases:
  assumes "confirmHandler c ctx token = (None, ctx1)"
  shows "token \<noteq> [] \<and>
    (\<exists>k u key. lookup_fault (Storer ctx) = None \<and> put_fault (Storer ctx) = None \<and>
       find (has_token (ToUpper token)) (accounts (Storer ctx)) = Some (k, u) \<and>
       (u(StoreConfirmToken \<mapsto> VString '''', StoreConfirmed \<mapsto> VBool True)) (PrimaryID c) =
         Some (VString key) \<and>
       User ctx1 = Some (u(StoreConfirmToken \<mapsto> VString '''', StoreConfirmed \<mapsto> VBool True)) \<and>
       lookup_fault (Storer ctx1) = None \<and>
       accounts (Storer ctx1) =
         put_account key (u(StoreConfirmToken \<mapsto> VString '''', StoreConfirmed \<mapsto> VBool True))
           (accounts (Storer ctx)))"
proof -
  have t: "token \<noteq> []"
    using assms by (auto simp add: confirmHandler_def)
  obtain u where found: "fst (ConfirmUser (ToUpper token) (Storer ctx)) = Inr u"
    using assms t
    by (cases "fst (ConfirmUser (ToUpper token) (Storer ctx))")
      (auto simp add: confirmHandler_def split_beta Let_def split: if_splits)
  let ?u2 = "u(StoreConfirmToken \<mapsto> VString '''', StoreConfirmed \<mapsto> VBool True)"
  let ?ctx2 = "ctx\<lparr>Storer := snd (ConfirmUser (ToUpper token) (Storer ctx)), User := Some ?u2\<rparr>"
  from found obtain k where
    lf: "lookup_fault (Storer ctx) = None" and
    fnd: "find (has_token (ToUpper token)) (accounts (Storer ctx)) = Some (k, u)"
    by (auto simp add: ConfirmUser_found)
  have ok: "fst (SaveUser c ?ctx2) = None"
    using assms unfolding confirmHandler_found [OF t found] Let_def
    by (auto split: option.splits)
  then obtain key where key: "?u2 (PrimaryID c) = Some (VString key)"
    and pf: "put_fault (Storer ctx) = None"
    by (auto simp add: SaveUser_ok ConfirmUser_calls)
  have save: "SaveUser c ?ctx2 =
    (None, ?ctx2\<lparr>Storer := (Storer ?ctx2)\<lparr>calls := calls (Storer ?ctx2) @ [CallPut key],
       accounts := put_account key ?u2 (accounts (Storer ?ctx2))\<rparr>\<rparr>)"
    using key pf by (intro SaveUser_store) (simp_all add: ConfirmUser_calls)
  have "User ctx1 = Some ?u2 \<and> lookup_fault (Storer ctx1) = None \<and>
      accounts (Storer ctx1) = put_account key ?u2 (accounts (Storer ctx))"
    using assms lf unfolding confirmHandler_found [OF t found] Let_def save
    by (auto simp add: ConfirmUser_calls split: if_splits sum.splits)
  with t lf pf fnd key show ?thesis by blast
qed

lemma find_put_account_cleared:
  assumes "\<forall>e \<in> set as. has_token tok e \<longrightarrow> fst e = key"
    and "\<not> has_token tok (key, attr)"
  shows "find (has_token tok) (put_account key attr as) = None"
  using assms
  by (auto simp add: find_None_iff put_account_def split: if_splits)

text \<open>
  Claim C4, amended. After a successful redemption of a token \<open>t\<close>, when no account of
  the backend other than the redeemed one holds the upper-cased \<open>t\<close> (every account
  that holds it is kept under the primary identity key of the redeemed account), the
  next invocation of the handler with \<open>t\<close>, in any request context over the same
  backend, ends in the not-found redirect to the site root and changes neither the
  stored accounts nor the account, session or response of the context.
\<close>

theorem confirmHandler_single_use:
  assumes "confirmHandler c ctx token = (None, ctx1)"
    and "\<forall>e \<in> set (accounts (Storer ctx)).
           has_token (ToUpper token) e \<longrightarrow> StringErr (User ctx1) (PrimaryID c) = Inr (fst e)"
    and "Storer ctx2 = Storer ctx1"
  shows "\<exists>ctx3. confirmHandler c ctx2 token =
       (Some (ErrAndRedirect ''/'' ''confirm: token not found''), ctx3) \<and>
     accounts (Storer ctx3) = accounts (Storer ctx1) \<and>
     User ctx3 = User ctx2 \<and> SessionStorer ctx3 = SessionStorer ctx2 \<and>
     Response ctx3 = Response ctx2"
proof -
  from confirmHandler_ok_cases [OF assms(1)] obtain k u key where
    t: "token \<noteq> []" and
    key: "(u(StoreConfirmToken \<mapsto> VString '''', StoreConfirmed \<mapsto> VBool True)) (PrimaryID c) =
         Some (VString key)" and
    user: "User ctx1 = Some (u(StoreConfirmToken \<mapsto> VString '''', StoreConfirmed \<mapsto> VBool True))" and
    lf: "lookup_fault (Storer ctx1) = None" and
    acc: "accounts (Storer ctx1) =
         put_account key (u(StoreConfirmToken \<mapsto> VString '''', StoreConfirmed \<mapsto> VBool True))
           (accounts (Storer ctx))"
    by blast
  have "StringErr (User ctx1) (PrimaryID c) = Inr key"
    using key user by (simp add: StringErr_def)
  with assms(2) have only: "\<forall>e \<in> set (accounts (Storer ctx)). has_token (ToUpper token) e \<longrightarrow> fst e = key"
    by auto
  have cleared: "\<not> has_token (ToUpper token)
      (key, u(StoreConfirmToken \<mapsto> VString '''', StoreConfirmed \<mapsto> VBool True))"
    using t confirm_fields_differ ToUpper_empty [of token]
    by (auto simp add: has_token_def)
  have "find (has_token (ToUpper token)) (accounts (Storer ctx2)) = None"
    unfolding assms(3) acc by (rule find_put_account_cleared [OF only cleared])
  with lf have "fst (ConfirmUser (ToUpper token) (Storer ctx2)) = Inl ErrUserNotFound"
    by (simp add: ConfirmUser_not_found assms(3))
  with t show ?thesis
    by (simp add: confirmHandler_def split_beta Let_def ConfirmUser_calls assms(3))
qed

lemma confirm_alice:
  "confirmHandler cfg0 ctx_registered ''aaaaaa'' = (None, ctx_confirmed)"
proof -
  have t: "''aaaaaa'' \<noteq> []" by simp
  show ?thesis
    unfolding confirmHandler_found [OF t lookup_alice, of cfg0]
    by (simp add: Let_def)
      (simp add: SaveUser_def StringErr_def Put_def put_account_def ConfirmUser_calls Let_def
        cfg0_def ctx_registered_def ctx_confirmed_def ctx0_def store0_def alice_confirmed_def
        alice_registered_def alice_def StoreConfirmToken_def StoreConfirmed_def ToUpper_aaaaaa)
qed

theorem confirmHandler_single_use_witness:
  "confirmHandler cfg0 ctx_registered ''aaaaaa'' = (None, ctx_confirmed) \<and>
   accounts (Storer ctx_registered) = [(''alice@example.com'', alice_registered)] \<and>
   StringErr (User ctx_confirmed) (PrimaryID cfg0) = Inr ''alice@example.com'' \<and>
   (\<exists>ctx3. confirmHandler cfg0 ctx_confirmed ''aaaaaa'' =
        (Some (ErrAndRedirect ''/'' ''confirm: token not found''), ctx3) \<and>
      accounts (Storer ctx3) = [(''alice@example.com'', alice_confirmed)] \<and>
      User ctx3 = Some alice_confirmed)"
proof -
  have a: "accounts (Storer ctx_registered) = [(''alice@example.com'', alice_registered)]"
    by (simp add: ctx_registered_def ctx0_def store0_def)
  have k: "StringErr (User ctx_confirmed) (PrimaryID cfg0) = Inr ''alice@example.com''"
    by (simp add: StringErr_def ctx_confirmed_def ctx_registered_def ctx0_def cfg0_def
        alice_confirmed_def alice_registered_def alice_def)
  have only: "\<forall>e \<in> set (accounts (Storer ctx_registered)).
      has_token (ToUpper ''aaaaaa'') e \<longrightarrow>
      StringErr (User ctx_confirmed) (PrimaryID cfg0) = Inr (fst e)"
    by (simp add: a k)
  have c: "accounts (Storer ctx_confirmed) = [(''alice@example.com'', alice_confirmed)]"
    "User ctx_confirmed = Some alice_confirmed"
    by (simp_all add: ctx_confirmed_def ctx_registered_def ctx0_def store0_def)
  from confirmHandler_single_use [OF confirm_alice only refl]
  show ?thesis
    using confirm_alice a k by (auto simp add: c)
qed

text \<open>
  Two registrations can draw the same token. The token is then redeemed twice: the first
  redemption confirms the first account, the second one the second account.
\<close>

theorem confirmHandler_token_twice_counterexample:
  "afterRegister cfg0 (ctx_registered\<lparr>User := Some bob\<rparr>) zeros = Some ((None, ctx_both), zeros) \<and>
   fst (confirmHandler cfg0 ctx_both ''aaaaaa'') = None \<and>
   fst (confirmHandler cfg0 (snd (confirmHandler cfg0 ctx_both ''aaaaaa'')) ''aaaaaa'') = None \<and>
   accounts (Storer (snd (confirmHandler cfg0 (snd (confirmHandler cfg0 ctx_both ''aaaaaa''))
      ''aaaaaa''))) =
     [(''alice@example.com'', alice_confirmed), (''bob@example.com'', bob_confirmed)]"
proof -
  have reg: "afterRegister cfg0 (ctx_registered\<lparr>User := Some bob\<rparr>) zeros =
      Some ((None, ctx_both), zeros)"
    by (simp add: afterRegister_def ctx_registered_def ctx0_def RandString_zeros ToUpper_aaaaaa
        SaveUser_def cfg0_def bob_def alice_def StringErr_def Put_def put_account_def store0_def
        Let_def StoreConfirmToken_def StoreEmail_def goConfirmEmail_def confirmEmail_def
        FormValueConfirm_def ctx_both_def alice_registered_def bob_registered_def)
  have first: "confirmHandler cfg0 ctx_both ''aaaaaa'' =
      (None, ctx_both\<lparr>User := Some alice_confirmed,
         Storer := store0\<lparr>accounts := [(''alice@example.com'', alice_confirmed),
             (''bob@example.com'', bob_registered)],
           calls := [CallPut ''alice@example.com'', CallPut ''bob@example.com'',
             CallConfirmUser ''AAAAAA'', CallPut ''alice@example.com'']\<rparr>,
         Response := Some (Redirect ''/welcome''
           ''You have successfully confirmed your account.'' '''' True)\<rparr>)"
    by (simp add: confirmHandler_def ConfirmUser_def has_token_def Unbind_def SaveUser_def
        StringErr_def Put_def put_account_def Let_def cfg0_def ctx_both_def ctx0_def store0_def
        alice_confirmed_def alice_registered_def bob_registered_def alice_def bob_def
        StoreConfirmToken_def StoreConfirmed_def ToUpper_aaaaaa)
  show ?thesis
    unfolding first
    by (simp add: reg)
      (simp add: confirmHandler_def ConfirmUser_def has_token_def Unbind_def SaveUser_def
        StringErr_def Put_def put_account_def Let_def cfg0_def ctx_both_def ctx0_def store0_def
        alice_confirmed_def alice_registered_def bob_registered_def bob_confirmed_def
        alice_def bob_def StoreConfirmToken_def StoreConfirmed_def ToUpper_aaaaaa)
qed

section \<open>Letter case of a token\<close>














end
